theory Spec2Isabelle
  imports
    Complex_Main
    "HOL-Library.Word"
    "HOL-Library.Sublist"
    "HOL-Library.Multiset"
    "HOL-Library.Char_ord"
    "HOL-Library.List_Lexorder"
    "HOL-Library.AList"
begin

section \<open>AudioContextManager: the reference-counted shared audio context\<close>

text \<open>
  The manager holds a reference to one \<open>AudioContext\<close> object and a counter. The
  objects live in an explicit store: every \<open>new AudioContext()\<close> appends a cell, and
  the address of the cell is the identity of the object. The only property of an
  \<open>AudioContext\<close> the manager reads is whether \<open>state === 'closed'\<close>, so a cell is
  \<open>Live\<close> (the states \<open>'running'\<close> and \<open>'suspended'\<close>) or \<open>Closed\<close>.
  \<open>refCount\<close> is a JavaScript number that is only incremented, decremented and
  reset, hence an \<open>int\<close>.
\<close>

datatype ctx_state = Live | Closed

record AudioContextManager =
  store :: "ctx_state list"
  audioContext :: "nat option"
  refCount :: int

definition fresh_manager :: AudioContextManager where
  "fresh_manager = \<lparr>store = [], audioContext = None, refCount = 0\<rparr>"

text \<open>The reference held by the manager points into the store.\<close>

definition wf_manager :: "AudioContextManager \<Rightarrow> bool" where
  "wf_manager m = (case audioContext m of None \<Rightarrow> True | Some a \<Rightarrow> a < length (store m))"

text \<open>\<open>!this.context || this.context.state === 'closed'\<close>\<close>

definition no_usable_context :: "AudioContextManager \<Rightarrow> bool" where
  "no_usable_context m =
     (case audioContext m of None \<Rightarrow> True | Some a \<Rightarrow> store m ! a = Closed)"

definition getContext :: "AudioContextManager \<Rightarrow> nat \<times> AudioContextManager" where
  "getContext m =
     (let m1 = (if no_usable_context m
                then m\<lparr>store := store m @ [Live], audioContext := Some (length (store m))\<rparr>
                else m);
          m2 = m1\<lparr>refCount := refCount m1 + 1\<rparr>
      in (case audioContext m2 of Some a \<Rightarrow> (a, m2) | None \<Rightarrow> (length (store m2), m2)))"

definition releaseContext :: "AudioContextManager \<Rightarrow> AudioContextManager" where
  "releaseContext m =
     (let m1 = m\<lparr>refCount := refCount m - 1\<rparr>
      in (case audioContext m1 of
            None \<Rightarrow> m1
          | Some a \<Rightarrow>
              if refCount m1 \<le> 0 \<and> store m1 ! a \<noteq> Closed
              then m1\<lparr>store := (store m1)[a := Closed], audioContext := None, refCount := 0\<rparr>
              else m1))"

definition forceClose :: "AudioContextManager \<Rightarrow> AudioContextManager" where
  "forceClose m =
     (let m1 = (case audioContext m of
                  None \<Rightarrow> m
                | Some a \<Rightarrow>
                    if store m ! a \<noteq> Closed then m\<lparr>store := (store m)[a := Closed]\<rparr> else m)
      in m1\<lparr>audioContext := None, refCount := 0\<rparr>)"

text \<open>
  A caller of the manager makes a sequence of calls; \<open>run_calls\<close> returns the handles
  that \<open>getContext\<close> handed out, in order, and the final manager.
\<close>

datatype manager_call = Acquire | Release | ForceClose

fun run_calls :: "manager_call list \<Rightarrow> AudioContextManager \<Rightarrow> nat list \<times> AudioContextManager" where
  "run_calls [] m = ([], m)"
| "run_calls (Acquire # cs) m =
     (let (h, m1) = getContext m; (hs, m2) = run_calls cs m1 in (h # hs, m2))"
| "run_calls (Release # cs) m = run_calls cs (releaseContext m)"
| "run_calls (ForceClose # cs) m = run_calls cs (forceClose m)"

subsection \<open>Invariants of the manager\<close>

lemma wf_fresh_manager: "wf_manager fresh_manager"
  by (simp add: wf_manager_def fresh_manager_def)

lemma wf_getContext: "wf_manager m \<Longrightarrow> wf_manager (snd (getContext m))"
  by (auto simp: wf_manager_def getContext_def no_usable_context_def Let_def
      split: option.splits)

lemma wf_releaseContext: "wf_manager m \<Longrightarrow> wf_manager (releaseContext m)"
  by (auto simp: wf_manager_def releaseContext_def Let_def split: option.splits)

lemma wf_forceClose: "wf_manager m \<Longrightarrow> wf_manager (forceClose m)"
  by (auto simp: wf_manager_def forceClose_def Let_def split: option.splits)

text \<open>A handle that \<open>getContext\<close> returns is the manager's context and is not closed.\<close>

lemma getContext_live:
  assumes "wf_manager m" and "getContext m = (h, m')"
  shows "audioContext m' = Some h \<and> h < length (store m') \<and> store m' ! h = Live"
proof (cases "no_usable_context m")
  case True
  with assms(2) show ?thesis
    by (auto simp: getContext_def Let_def nth_append)
next
  case False
  then obtain a where a: "audioContext m = Some a" "store m ! a \<noteq> Closed"
    by (auto simp: no_usable_context_def split: option.splits)
  from a(2) have "store m ! a = Live" by (cases "store m ! a") auto
  with a assms False show ?thesis
    by (auto simp: getContext_def Let_def wf_manager_def)
qed

text \<open>No call reopens a closed context, and no call shrinks the store.\<close>

definition closed_in :: "AudioContextManager \<Rightarrow> nat \<Rightarrow> bool" where
  "closed_in m a = (a < length (store m) \<and> store m ! a = Closed)"

lemma closed_getContext: "closed_in m a \<Longrightarrow> closed_in (snd (getContext m)) a"
  by (auto simp: closed_in_def getContext_def Let_def nth_append split: option.splits)

lemma closed_releaseContext:
  "wf_manager m \<Longrightarrow> closed_in m a \<Longrightarrow> closed_in (releaseContext m) a"
  by (auto simp: closed_in_def releaseContext_def Let_def nth_list_update wf_manager_def
      split: option.splits)

lemma closed_forceClose:
  "wf_manager m \<Longrightarrow> closed_in m a \<Longrightarrow> closed_in (forceClose m) a"
  by (auto simp: closed_in_def forceClose_def Let_def nth_list_update wf_manager_def
      split: option.splits)

lemma closed_never_returned:
  "wf_manager m \<Longrightarrow> closed_in m a \<Longrightarrow> a \<notin> set (fst (run_calls cs m))"
proof (induction cs arbitrary: m)
  case Nil
  then show ?case by simp
next
  case (Cons c cs)
  show ?case
  proof (cases c)
    case Acquire
    obtain h m1 where g: "getContext m = (h, m1)" by (cases "getContext m")
    from getContext_live [OF Cons.prems(1) g] have live: "store m1 ! h = Live" by simp
    from closed_getContext [OF Cons.prems(2)] g have cl: "closed_in m1 a" by simp
    from wf_getContext [OF Cons.prems(1)] g have wf1: "wf_manager m1" by simp
    from live cl have "h \<noteq> a" by (auto simp: closed_in_def)
    moreover from Cons.IH [OF wf1 cl] have "a \<notin> set (fst (run_calls cs m1))" .
    ultimately show ?thesis using Acquire g
      by (simp add: split_beta)
  next
    case Release
    with Cons show ?thesis
      by (simp add: wf_releaseContext closed_releaseContext)
  next
    case ForceClose
    with Cons show ?thesis
      by (simp add: wf_forceClose closed_forceClose)
  qed
qed

subsection \<open>Two acquisitions, two releases, and the next acquisition\<close>

text \<open>
  Claim C5. Starting from a manager whose reference count is zero (a new manager in
  particular), two calls of \<open>getContext\<close> hand out the same context and count two
  holders; after two calls of \<open>releaseContext\<close> the count is zero again, the context
  has been closed and the cached reference is cleared. The next \<open>getContext\<close>
  constructs one more \<open>AudioContext\<close> (the store grows by one cell), hands out that
  new, live object, which is not the closed one, and no later sequence of calls ever
  hands out the closed object again.
\<close>

theorem acquire_twice_release_twice:
  assumes "wf_manager m" and "refCount m = 0"
  shows "(let (h1, m1) = getContext m;
              (h2, m2) = getContext m1;
              m3 = releaseContext m2;
              m4 = releaseContext m3;
              (h3, m5) = getContext m4
          in h2 = h1 \<and> refCount m2 = 2 \<and> refCount m4 = 0 \<and> audioContext m4 = None
             \<and> closed_in m4 h1
             \<and> length (store m5) = Suc (length (store m4))
             \<and> h3 \<noteq> h1 \<and> store m5 ! h3 = Live
             \<and> (\<forall>cs. h1 \<notin> set (fst (run_calls cs m4))))"
proof -
  obtain h1 m1 where g1: "getContext m = (h1, m1)" by (cases "getContext m")
  obtain h2 m2 where g2: "getContext m1 = (h2, m2)" by (cases "getContext m1")
  define m3 where "m3 = releaseContext m2"
  define m4 where "m4 = releaseContext m3"
  obtain h3 m5 where g3: "getContext m4 = (h3, m5)" by (cases "getContext m4")
  from wf_getContext [OF assms(1)] g1 have wf1: "wf_manager m1" by simp
  from wf_getContext [OF wf1] g2 have wf2: "wf_manager m2" by simp
  have wf4: "wf_manager m4"
    unfolding m4_def m3_def by (intro wf_releaseContext wf2)
  from getContext_live [OF assms(1) g1]
  have l1: "audioContext m1 = Some h1" "h1 < length (store m1)" "store m1 ! h1 = Live"
    by simp_all
  from g1 assms(2) have r1: "refCount m1 = 1"
    by (auto simp: getContext_def Let_def split: option.splits if_splits)
  from l1 have usable: "\<not> no_usable_context m1"
    by (simp add: no_usable_context_def)
  from g2 usable l1 r1 have m2: "h2 = h1" "m2 = m1\<lparr>refCount := 2\<rparr>"
    by (auto simp: getContext_def Let_def)
  from m2 l1 have m3: "m3 = m1\<lparr>refCount := 1\<rparr>"
    by (simp add: m3_def releaseContext_def Let_def)
  from m3 l1 have m4:
    "m4 = m1\<lparr>store := (store m1)[h1 := Closed], audioContext := None, refCount := 0\<rparr>"
    by (simp add: m4_def releaseContext_def Let_def)
  from m4 l1 have cl: "closed_in m4 h1"
    by (simp add: closed_in_def)
  from m4 g3 have m5: "h3 = length (store m4)" "store m5 = store m4 @ [Live]"
    by (auto simp: getContext_def Let_def no_usable_context_def)
  from cl m5 have fresh: "h3 \<noteq> h1" "store m5 ! h3 = Live"
    by (auto simp: closed_in_def)
  have never: "\<forall>cs. h1 \<notin> set (fst (run_calls cs m4))"
    using closed_never_returned [OF wf4 cl] by blast
  from m2 m4 cl m5 fresh never
  have "h2 = h1 \<and> refCount m2 = 2 \<and> refCount m4 = 0 \<and> audioContext m4 = None
        \<and> closed_in m4 h1 \<and> length (store m5) = Suc (length (store m4))
        \<and> h3 \<noteq> h1 \<and> store m5 ! h3 = Live
        \<and> (\<forall>cs. h1 \<notin> set (fst (run_calls cs m4)))"
    by simp
  then show ?thesis
    using g1 g2 g3 by (simp add: m3_def m4_def)
qed

theorem acquire_twice_release_twice_witness:
  "wf_manager fresh_manager \<and> refCount fresh_manager = 0
   \<and> (let (h1, m1) = getContext fresh_manager;
           (h2, m2) = getContext m1;
           m3 = releaseContext m2;
           m4 = releaseContext m3;
           (h3, m5) = getContext m4
       in h2 = h1 \<and> refCount m2 = 2 \<and> refCount m4 = 0 \<and> audioContext m4 = None
          \<and> closed_in m4 h1
          \<and> length (store m5) = Suc (length (store m4))
          \<and> h3 \<noteq> h1 \<and> store m5 ! h3 = Live
          \<and> (\<forall>cs. h1 \<notin> set (fst (run_calls cs m4))))"
proof -
  have h: "wf_manager fresh_manager" "refCount fresh_manager = 0"
    by (simp_all add: wf_manager_def fresh_manager_def)
  from acquire_twice_release_twice [OF h] h show ?thesis by blast
qed

subsection \<open>A release without a live context\<close>

text \<open>
  Claim C10 (the code departs from it). \<open>releaseContext\<close> resets the count to zero
  only inside the branch that closes a live context. A release on a manager that has
  no context decrements the count and leaves it at \<open>-1\<close>. The next two acquisitions
  then share one context with a count of one, and the first release of the two closes
  the context that the second holder still uses.
\<close>

theorem releaseContext_underflow:
  "refCount (releaseContext fresh_manager) = - 1
   \<and> (let m0 = releaseContext fresh_manager;
           (h1, m1) = getContext m0;
           (h2, m2) = getContext m1;
           m3 = releaseContext m2
       in h2 = h1 \<and> refCount m2 = 1 \<and> closed_in m3 h2)"
  by (simp add: releaseContext_def getContext_def fresh_manager_def no_usable_context_def
      closed_in_def Let_def)

section \<open>JavaScript numbers and errors\<close>

text \<open>
  A JavaScript number is a finite value, an infinity or \<open>NaN\<close>. Finite values are
  modelled as reals: the numbers that \<open>encodeWAV\<close> computes are products of a
  \<open>Float32Array\<close> element or a sample rate with integers below \<open>2^21\<close> and byte counts,
  which binary64 arithmetic computes without rounding, so real arithmetic gives the same
  results. The sign of zero is not modelled; no operation below observes it.
  \<open>js_divide\<close> is division by a positive finite constant.
\<close>

datatype jsnum = Fin real | PosInf | NegInf | NaN

datatype js_error = RangeError | IOError | SyntaxError | NoRecordingData | DecodeError | ProcessError

text \<open>
  An \<open>await\<close>ed call either returns or throws; a function that can throw returns
  \<open>js_error + 'a\<close>, and \<open>and_then\<close> runs the rest of a block after a call that
  returned. \<open>for_each\<close> is a \<open>for\<close> loop that a throw leaves.
\<close>

definition and_then :: "'e + 'a \<Rightarrow> ('a \<Rightarrow> 'e + 'b) \<Rightarrow> 'e + 'b" where
  "and_then r f = (case r of Inl e \<Rightarrow> Inl e | Inr x \<Rightarrow> f x)"

fun for_each :: "'a list \<Rightarrow> ('a \<Rightarrow> 's \<Rightarrow> 'e + 's) \<Rightarrow> 's \<Rightarrow> 'e + 's" where
  "for_each [] body s = Inr s"
| "for_each (x # xs) body s = and_then (body x s) (for_each xs body)"

fun Math_min :: "jsnum \<Rightarrow> jsnum \<Rightarrow> jsnum" where
  "Math_min NaN y = NaN"
| "Math_min x NaN = NaN"
| "Math_min NegInf y = NegInf"
| "Math_min x NegInf = NegInf"
| "Math_min PosInf y = y"
| "Math_min x PosInf = x"
| "Math_min (Fin a) (Fin b) = Fin (min a b)"

fun Math_max :: "jsnum \<Rightarrow> jsnum \<Rightarrow> jsnum" where
  "Math_max NaN y = NaN"
| "Math_max x NaN = NaN"
| "Math_max PosInf y = PosInf"
| "Math_max x PosInf = PosInf"
| "Math_max NegInf y = y"
| "Math_max x NegInf = x"
| "Math_max (Fin a) (Fin b) = Fin (max a b)"

fun js_less :: "jsnum \<Rightarrow> jsnum \<Rightarrow> bool" where
  "js_less NaN y = False"
| "js_less x NaN = False"
| "js_less (Fin a) (Fin b) = (a < b)"
| "js_less x NegInf = False"
| "js_less NegInf y = True"
| "js_less PosInf y = False"
| "js_less x PosInf = True"

fun js_sign :: "jsnum \<Rightarrow> int" where
  "js_sign (Fin a) = (if a < 0 then - 1 else if a = 0 then 0 else 1)"
| "js_sign PosInf = 1"
| "js_sign NegInf = - 1"
| "js_sign NaN = 0"

fun js_times :: "jsnum \<Rightarrow> jsnum \<Rightarrow> jsnum" where
  "js_times (Fin a) (Fin b) = Fin (a * b)"
| "js_times NaN y = NaN"
| "js_times x NaN = NaN"
| "js_times x y =
     (if js_sign x * js_sign y = 0 then NaN
      else if js_sign x * js_sign y < 0 then NegInf else PosInf)"

fun js_divide :: "jsnum \<Rightarrow> real \<Rightarrow> jsnum" where
  "js_divide (Fin a) d = Fin (a / d)"
| "js_divide x d = x"

text \<open>
  \<open>ToInt16\<close>, \<open>ToUint16\<close> and \<open>ToUint32\<close> truncate a finite number towards zero and
  reduce it modulo the width; \<open>NaN\<close> and the infinities become 0. The reduction is the
  conversion \<open>word_of_int\<close> into a word of that width.
\<close>

definition trunc :: "real \<Rightarrow> int" where
  "trunc x = (if x < 0 then \<lceil>x\<rceil> else \<lfloor>x\<rfloor>)"

fun to_integer :: "jsnum \<Rightarrow> int" where
  "to_integer (Fin x) = trunc x"
| "to_integer x = 0"

section \<open>DataView\<close>

text \<open>
  The view is the byte list of its \<open>ArrayBuffer\<close>. A setter whose bytes do not fit
  between \<open>byteOffset\<close> and the end of the view throws \<open>RangeError\<close>. Since a
  two's-complement \<open>Int16\<close> and the \<open>Uint16\<close> of the same residue have the same bytes,
  \<open>setInt16\<close> stores the same two bytes as \<open>setUint16\<close>.
\<close>

type_synonym byte = "8 word"

definition u16_bytes :: "16 word \<Rightarrow> byte list" where
  "u16_bytes w = [ucast w, ucast (drop_bit 8 w)]"

definition u32_bytes :: "32 word \<Rightarrow> byte list" where
  "u32_bytes w = [ucast w, ucast (drop_bit 8 w), ucast (drop_bit 16 w), ucast (drop_bit 24 w)]"

definition put_bytes :: "byte list \<Rightarrow> nat \<Rightarrow> byte list \<Rightarrow> js_error + byte list" where
  "put_bytes view byteOffset bs =
     (if byteOffset + length bs \<le> length view
      then Inr (take byteOffset view @ bs @ drop (byteOffset + length bs) view)
      else Inl RangeError)"

definition setUint8 :: "byte list \<Rightarrow> nat \<Rightarrow> jsnum \<Rightarrow> js_error + byte list" where
  "setUint8 view byteOffset v = put_bytes view byteOffset [word_of_int (to_integer v)]"

definition setUint16 :: "byte list \<Rightarrow> nat \<Rightarrow> jsnum \<Rightarrow> bool \<Rightarrow> js_error + byte list" where
  "setUint16 view byteOffset v littleEndian =
     put_bytes view byteOffset
       (let bs = u16_bytes (word_of_int (to_integer v)) in if littleEndian then bs else rev bs)"

definition setInt16 :: "byte list \<Rightarrow> nat \<Rightarrow> jsnum \<Rightarrow> bool \<Rightarrow> js_error + byte list" where
  "setInt16 view byteOffset v littleEndian =
     put_bytes view byteOffset
       (let bs = u16_bytes (word_of_int (to_integer v)) in if littleEndian then bs else rev bs)"

definition setUint32 :: "byte list \<Rightarrow> nat \<Rightarrow> jsnum \<Rightarrow> bool \<Rightarrow> js_error + byte list" where
  "setUint32 view byteOffset v littleEndian =
     put_bytes view byteOffset
       (let bs = u32_bytes (word_of_int (to_integer v)) in if littleEndian then bs else rev bs)"

section \<open>encodeWAV\<close>

text \<open>
  An \<open>AudioBuffer\<close> has a sample rate, a length in frames and one \<open>Float32Array\<close> per
  channel; \<open>numberOfChannels\<close> is the number of these arrays. In a buffer that
  \<open>decodeAudioData\<close> produced every channel has \<open>bufferLength\<close> samples
  (\<open>valid_buffer\<close>). Reading a typed array beyond its end gives \<open>undefined\<close>, which
  \<open>Math.min\<close> turns into \<open>NaN\<close>. \<open>new ArrayBuffer\<close> is taken to succeed and to be
  filled with zeros. \<open>blob_type\<close> is the \<open>type\<close> option given to \<open>new Blob\<close>.
\<close>

record AudioBuffer =
  sampleRate :: jsnum
  bufferLength :: nat
  channels :: "jsnum list list"

definition numberOfChannels :: "AudioBuffer \<Rightarrow> nat" where
  "numberOfChannels buffer = length (channels buffer)"

definition getChannelData :: "AudioBuffer \<Rightarrow> nat \<Rightarrow> jsnum list" where
  "getChannelData buffer i = channels buffer ! i"

definition valid_buffer :: "AudioBuffer \<Rightarrow> bool" where
  "valid_buffer buffer = list_all (\<lambda>c. length c = bufferLength buffer) (channels buffer)"

definition sample_at :: "jsnum list \<Rightarrow> nat \<Rightarrow> jsnum" where
  "sample_at a i = (if i < length a then a ! i else NaN)"

record Blob =
  blob_bytes :: "byte list"
  blob_type :: string

definition charCode :: "char \<Rightarrow> jsnum" where
  "charCode c = Fin (real (of_char c))"

definition writeString :: "byte list \<Rightarrow> nat \<Rightarrow> string \<Rightarrow> js_error + byte list" where
  "writeString view offset text =
     for_each [0..<length text] (\<lambda>i v. setUint8 v (offset + i) (charCode (text ! i))) view"

definition pcm_value :: "jsnum \<Rightarrow> jsnum" where
  "pcm_value sample =
     (let clamped = Math_max (Fin (- 1)) (Math_min (Fin 1) sample)
      in if js_less clamped (Fin 0) then js_times clamped (Fin 32768)
         else js_times clamped (Fin 32767))"

definition write_sample ::
  "jsnum list list \<Rightarrow> nat \<Rightarrow> nat \<Rightarrow> nat \<times> byte list \<Rightarrow> js_error + nat \<times> byte list" where
  "write_sample channelData i ch = (\<lambda>(offset, view).
     let sample = sample_at (channelData ! ch) i
     in and_then (setInt16 view offset (pcm_value sample) True)
          (\<lambda>view. Inr (offset + 2, view)))"

definition encodeWAV :: "AudioBuffer \<Rightarrow> js_error + Blob" where
  "encodeWAV buffer =
     (let numChannels = numberOfChannels buffer;
          sampleRate = sampleRate buffer;
          format = Fin 1;
          bitsPerSample = Fin 16;
          channelData = map (getChannelData buffer) [0..<numChannels];
          length = bufferLength buffer * numChannels * 2;
          bufferSize = 44 + length;
          view = replicate bufferSize 0
      in and_then (writeString view 0 ''RIFF'') (\<lambda>view.
         and_then (setUint32 view 4 (Fin (real (36 + length))) True) (\<lambda>view.
         and_then (writeString view 8 ''WAVE'') (\<lambda>view.
         and_then (writeString view 12 ''fmt '') (\<lambda>view.
         and_then (setUint32 view 16 (Fin 16) True) (\<lambda>view.
         and_then (setUint16 view 20 format True) (\<lambda>view.
         and_then (setUint16 view 22 (Fin (real numChannels)) True) (\<lambda>view.
         and_then (setUint32 view 24 sampleRate True) (\<lambda>view.
         and_then (setUint32 view 28
             (js_divide (js_times (js_times sampleRate (Fin (real numChannels))) bitsPerSample) 8)
             True) (\<lambda>view.
         and_then (setUint16 view 32
             (js_divide (js_times (Fin (real numChannels)) bitsPerSample) 8) True) (\<lambda>view.
         and_then (setUint16 view 34 bitsPerSample True) (\<lambda>view.
         and_then (writeString view 36 ''data'') (\<lambda>view.
         and_then (setUint32 view 40 (Fin (real length)) True) (\<lambda>view.
         and_then
           (for_each [0..<bufferLength buffer] (\<lambda>i.
              for_each [0..<numChannels] (write_sample channelData i))
              (44, view))
           (\<lambda>(offset, view). Inr \<lparr>blob_bytes = view, blob_type = ''audio/wav''\<rparr>)))))))))))))))"

definition example_buffer :: AudioBuffer where
  "example_buffer = \<lparr>sampleRate = Fin 16000, bufferLength = 2, channels = [[Fin 1, Fin (- 1)]]\<rparr>"

subsection \<open>Sequencing\<close>

lemma and_then_Inr [simp]: "and_then (Inr x) f = f x"
  by (simp add: and_then_def)

lemma and_then_Inl [simp]: "and_then (Inl e) f = Inl e"
  by (simp add: and_then_def)

lemma for_each_append:
  "for_each (xs @ ys) body s = and_then (for_each xs body s) (for_each ys body)"
  by (induction xs arbitrary: s) (auto simp: and_then_def split: sum.splits)

subsection \<open>Writing into the unwritten tail of the view\<close>

definition partial_view :: "byte list \<Rightarrow> nat \<Rightarrow> byte list" where
  "partial_view written k = written @ replicate k 0"

lemma partial_view_0: "partial_view written 0 = written"
  by (simp add: partial_view_def)

lemma put_bytes_partial:
  assumes "length written = off" and "length bs \<le> k"
  shows "put_bytes (partial_view written k) off bs
         = Inr (partial_view (written @ bs) (k - length bs))"
proof -
  from assms(2) have "replicate k (0::byte) = replicate (length bs) 0 @ replicate (k - length bs) 0"
    by (simp add: replicate_add [symmetric])
  then have "drop (length bs) (replicate k (0::byte)) = replicate (k - length bs) 0"
    by simp
  with assms show ?thesis
    by (simp add: put_bytes_def partial_view_def)
qed

lemma length_u16_bytes [simp]: "length (u16_bytes w) = 2"
  by (simp add: u16_bytes_def)

lemma length_u32_bytes [simp]: "length (u32_bytes w) = 4"
  by (simp add: u32_bytes_def)

lemma setUint8_partial:
  "length written = off \<Longrightarrow> 1 \<le> k \<Longrightarrow>
   setUint8 (partial_view written k) off v
   = Inr (partial_view (written @ [word_of_int (to_integer v)]) (k - 1))"
  by (simp add: setUint8_def put_bytes_partial)

lemma setUint16_partial:
  "length written = off \<Longrightarrow> 2 \<le> k \<Longrightarrow>
   setUint16 (partial_view written k) off v True
   = Inr (partial_view (written @ u16_bytes (word_of_int (to_integer v))) (k - 2))"
  by (simp add: setUint16_def put_bytes_partial)

lemma setInt16_partial:
  "length written = off \<Longrightarrow> 2 \<le> k \<Longrightarrow>
   setInt16 (partial_view written k) off v True
   = Inr (partial_view (written @ u16_bytes (word_of_int (to_integer v))) (k - 2))"
  by (simp add: setInt16_def put_bytes_partial)

lemma setUint32_partial:
  "length written = off \<Longrightarrow> 4 \<le> k \<Longrightarrow>
   setUint32 (partial_view written k) off v True
   = Inr (partial_view (written @ u32_bytes (word_of_int (to_integer v))) (k - 4))"
  by (simp add: setUint32_def put_bytes_partial)

definition ascii :: "string \<Rightarrow> byte list" where
  "ascii s = map of_char s"

lemma length_ascii [simp]: "length (ascii s) = length s"
  by (simp add: ascii_def)

lemma trunc_of_nat [simp]: "trunc (real n) = int n"
  by (simp add: trunc_def)

lemma trunc_numeral [simp]: "trunc (numeral n) = numeral n"
  by (simp add: trunc_def)

lemma trunc_0 [simp]: "trunc 0 = 0"
  by (simp add: trunc_def)

lemma trunc_1 [simp]: "trunc 1 = 1"
  by (simp add: trunc_def)

lemma charCode_byte: "word_of_int (to_integer (charCode c)) = (of_char c :: byte)"
proof -
  have "word_of_int (to_integer (charCode c)) = (word_of_nat (of_char c) :: byte)"
    by (simp add: charCode_def)
  also have "\<dots> = of_char c"
    by (rule of_nat_of_char)
  finally show ?thesis .
qed

lemma writeString_prefix:
  assumes "length written = off" and "n \<le> length text" and "length text \<le> k"
  shows "for_each [0..<n] (\<lambda>i v. setUint8 v (off + i) (charCode (text ! i)))
           (partial_view written k)
         = Inr (partial_view (written @ ascii (take n text)) (k - n))"
  using assms(2)
proof (induction n)
  case 0
  then show ?case by (simp add: ascii_def)
next
  case (Suc n)
  then have n: "n < length text" by simp
  with assms have "Suc 0 \<le> k - n" by simp
  moreover have "length (written @ ascii (take n text)) = off + n"
    using assms(1) n by simp
  ultimately have "setUint8 (partial_view (written @ ascii (take n text)) (k - n)) (off + n)
                     (charCode (text ! n))
        = Inr (partial_view ((written @ ascii (take n text)) @ [of_char (text ! n)]) (k - n - 1))"
    by (simp add: setUint8_partial charCode_byte del: append_assoc)
  moreover have "ascii (take (Suc n) text) = ascii (take n text) @ [of_char (text ! n)]"
    using n by (simp add: ascii_def take_Suc_conv_app_nth)
  ultimately show ?case
    using Suc n by (simp add: for_each_append)
qed

lemma writeString_partial:
  "length written = off \<Longrightarrow> length text \<le> k \<Longrightarrow>
   writeString (partial_view written k) off text
   = Inr (partial_view (written @ ascii text) (k - length text))"
  using writeString_prefix [of written off "length text" "text" k]
  by (simp add: writeString_def)

subsection \<open>The header and the sample loop in closed form\<close>

definition header_bytes :: "nat \<Rightarrow> jsnum \<Rightarrow> nat \<Rightarrow> byte list" where
  "header_bytes numChannels rate len =
     ascii ''RIFF'' @ u32_bytes (word_of_nat (36 + len)) @ ascii ''WAVE''
     @ ascii ''fmt '' @ u32_bytes 16 @ u16_bytes 1 @ u16_bytes (word_of_nat numChannels)
     @ u32_bytes (word_of_int (to_integer rate))
     @ u32_bytes (word_of_int (to_integer
         (js_divide (js_times (js_times rate (Fin (real numChannels))) (Fin 16)) 8)))
     @ u16_bytes (word_of_nat (numChannels * 2)) @ u16_bytes 16
     @ ascii ''data'' @ u32_bytes (word_of_nat len)"

lemma length_header_bytes [simp]: "length (header_bytes c r len) = 44"
  by (simp add: header_bytes_def)

definition sample_bytes :: "jsnum \<Rightarrow> byte list" where
  "sample_bytes sample = u16_bytes (word_of_int (to_integer (pcm_value sample)))"

definition frame_bytes :: "jsnum list list \<Rightarrow> nat \<Rightarrow> byte list" where
  "frame_bytes chans i = concat (map (\<lambda>a. sample_bytes (sample_at a i)) chans)"

definition pcm_bytes :: "AudioBuffer \<Rightarrow> byte list" where
  "pcm_bytes buffer = concat (map (frame_bytes (channels buffer)) [0..<bufferLength buffer])"

lemma length_sample_bytes [simp]: "length (sample_bytes s) = 2"
  by (simp add: sample_bytes_def)

lemma length_frame_bytes [simp]: "length (frame_bytes chans i) = 2 * length chans"
  by (induction chans) (simp_all add: frame_bytes_def)

lemma length_concat_frames:
  "length (concat (map (frame_bytes chans) fs)) = 2 * length chans * length fs"
  by (induction fs) (simp_all add: algebra_simps)

lemma length_pcm_bytes [simp]:
  "length (pcm_bytes buffer) = bufferLength buffer * numberOfChannels buffer * 2"
  by (simp add: pcm_bytes_def numberOfChannels_def length_concat_frames)

lemma block_align_word:
  "(word_of_int (to_integer (js_divide (js_times (Fin (real c)) (Fin 16)) 8)) :: 16 word)
   = word_of_nat (c * 2)"
proof -
  have "real c * 16 / 8 = real (c * 2)" by simp
  then have "to_integer (js_divide (js_times (Fin (real c)) (Fin 16)) 8) = int (c * 2)"
    by (simp only: js_times.simps js_divide.simps to_integer.simps trunc_of_nat)
  then show ?thesis
    by (simp only: of_int_of_nat_eq)
qed

lemma to_integer_numeral: "to_integer (Fin (numeral n)) = numeral n"
  by simp

lemma to_integer_1: "to_integer (Fin 1) = 1"
  by simp

lemma nat_field_word:
  "(word_of_int (to_integer (Fin (real n))) :: 'a::len word) = word_of_nat n"
  by (simp only: to_integer.simps trunc_of_nat of_int_of_nat_eq)

lemma header_writes:
  fixes len :: nat and c :: nat
  defines "view0 \<equiv> replicate (44 + len) (0::byte)"
  shows
   "and_then (writeString view0 0 ''RIFF'') (\<lambda>view.
    and_then (setUint32 view 4 (Fin (real (36 + len))) True) (\<lambda>view.
    and_then (writeString view 8 ''WAVE'') (\<lambda>view.
    and_then (writeString view 12 ''fmt '') (\<lambda>view.
    and_then (setUint32 view 16 (Fin 16) True) (\<lambda>view.
    and_then (setUint16 view 20 (Fin 1) True) (\<lambda>view.
    and_then (setUint16 view 22 (Fin (real c)) True) (\<lambda>view.
    and_then (setUint32 view 24 rate True) (\<lambda>view.
    and_then (setUint32 view 28
        (js_divide (js_times (js_times rate (Fin (real c))) (Fin 16)) 8) True) (\<lambda>view.
    and_then (setUint16 view 32 (js_divide (js_times (Fin (real c)) (Fin 16)) 8) True) (\<lambda>view.
    and_then (setUint16 view 34 (Fin 16) True) (\<lambda>view.
    and_then (writeString view 36 ''data'') (\<lambda>view.
    and_then (setUint32 view 40 (Fin (real len)) True) k))))))))))))
    = k (partial_view (header_bytes c rate len) len)"
proof -
  have v0: "view0 = partial_view [] (44 + len)"
    by (simp add: view0_def partial_view_def)
  show ?thesis
    unfolding v0 header_bytes_def
    by (simp add: writeString_partial setUint32_partial setUint16_partial
        block_align_word nat_field_word to_integer_numeral to_integer_1
        del: of_nat_mult of_nat_add to_integer.simps js_times.simps js_divide.simps)
qed

lemma channel_loop:
  assumes "length written = off" and "2 * length chs \<le> k"
  shows "for_each chs (write_sample cd i) (off, partial_view written k)
         = Inr (off + 2 * length chs,
                partial_view (written @ concat (map (\<lambda>ch. sample_bytes (sample_at (cd ! ch) i)) chs))
                  (k - 2 * length chs))"
  using assms
proof (induction chs arbitrary: off written k)
  case Nil
  then show ?case by simp
next
  case (Cons ch chs)
  let ?bs = "sample_bytes (sample_at (cd ! ch) i)"
  from Cons.prems have step:
    "write_sample cd i ch (off, partial_view written k)
     = Inr (off + 2, partial_view (written @ ?bs) (k - 2))"
    by (simp add: write_sample_def setInt16_partial sample_bytes_def)
  from Cons.prems have "length (written @ ?bs) = off + 2" "2 * length chs \<le> k - 2"
    by simp_all
  from Cons.IH [OF this] step show ?case
    by simp
qed

lemma frame_loop:
  assumes "length written = off" and "2 * c * length fs \<le> k"
  shows "for_each fs (\<lambda>i. for_each [0..<c] (write_sample cd i)) (off, partial_view written k)
         = Inr (off + 2 * c * length fs,
                partial_view
                  (written @ concat (map (\<lambda>i. concat (map (\<lambda>ch. sample_bytes (sample_at (cd ! ch) i))
                                                         [0..<c])) fs))
                  (k - 2 * c * length fs))"
  using assms
proof (induction fs arbitrary: off written k)
  case Nil
  then show ?case by simp
next
  case (Cons i fs)
  let ?bs = "concat (map (\<lambda>ch. sample_bytes (sample_at (cd ! ch) i)) [0..<c])"
  from Cons.prems have c: "2 * length [0..<c] \<le> k"
    by (simp add: algebra_simps)
  from channel_loop [OF Cons.prems(1) c, of cd i] have step:
    "for_each [0..<c] (write_sample cd i) (off, partial_view written k)
     = Inr (off + 2 * c, partial_view (written @ ?bs) (k - 2 * c))"
    by simp
  have len: "length ?bs = 2 * c"
    by (simp add: length_concat sum_list_triv comp_def)
  from Cons.prems len have "length (written @ ?bs) = off + 2 * c"
    "2 * c * length fs \<le> k - 2 * c"
    by (simp_all add: algebra_simps)
  from Cons.IH [OF this] step show ?case
    by (simp add: algebra_simps)
qed

lemma frames_of_channels:
  "concat (map (\<lambda>ch. sample_bytes (sample_at (map (getChannelData b) [0..<length (channels b)] ! ch) i))
             [0..<length (channels b)])
   = frame_bytes (channels b) i"
proof -
  have cd: "map (getChannelData b) [0..<length (channels b)] = channels b"
    by (simp add: getChannelData_def [abs_def] map_nth)
  have "map (\<lambda>ch. sample_bytes (sample_at (channels b ! ch) i)) [0..<length (channels b)]
        = map (\<lambda>a. sample_bytes (sample_at a i)) (map ((!) (channels b)) [0..<length (channels b)])"
    by (simp only: map_map comp_def)
  also have "\<dots> = map (\<lambda>a. sample_bytes (sample_at a i)) (channels b)"
    by (simp only: map_nth)
  finally show ?thesis
    by (simp only: cd frame_bytes_def)
qed

lemma encodeWAV_closed_form:
  "encodeWAV buffer
   = Inr \<lparr>blob_bytes =
            header_bytes (numberOfChannels buffer) (sampleRate buffer)
              (bufferLength buffer * numberOfChannels buffer * 2)
            @ pcm_bytes buffer,
          blob_type = ''audio/wav''\<rparr>"
proof -
  let ?c = "length (channels buffer)"
  let ?n = "bufferLength buffer"
  let ?hdr = "header_bytes ?c (sampleRate buffer) (?n * ?c * 2)"
  have loop: "for_each [0..<?n]
          (\<lambda>i. for_each [0..<?c] (write_sample (map (getChannelData buffer) [0..<?c]) i))
          (44, partial_view ?hdr (?n * ?c * 2))
        = Inr (44 + 2 * ?c * ?n, partial_view (?hdr @ pcm_bytes buffer) 0)"
    using frame_loop [of ?hdr 44 ?c "[0..<?n]" "?n * ?c * 2"
        "map (getChannelData buffer) [0..<?c]"]
    by (simp add: frames_of_channels pcm_bytes_def algebra_simps)
  show ?thesis
    by (simp only: encodeWAV_def Let_def numberOfChannels_def header_writes loop
        and_then_Inr partial_view_0 prod.case)
qed

subsection \<open>The format as the specification words it\<close>

text \<open>
  The fields of the header as the specification names them: unsigned little-endian
  integers of two and four bytes, and the signed 16-bit sample. \<open>le_value\<close> reads a
  little-endian byte string back as a number, and \<open>field off k\<close> reads the \<open>k\<close>
  bytes at offset \<open>off\<close>.
\<close>

definition uint16_le :: "nat \<Rightarrow> byte list" where
  "uint16_le n = u16_bytes (word_of_nat n)"

definition uint32_le :: "nat \<Rightarrow> byte list" where
  "uint32_le n = u32_bytes (word_of_nat n)"

definition int16_le :: "int \<Rightarrow> byte list" where
  "int16_le v = u16_bytes (word_of_int v)"

fun le_value :: "byte list \<Rightarrow> nat" where
  "le_value [] = 0"
| "le_value (b # bs) = unat b + 256 * le_value bs"

definition field :: "nat \<Rightarrow> nat \<Rightarrow> byte list \<Rightarrow> nat" where
  "field off k bytes = le_value (take k (drop off bytes))"

definition wav_header :: "nat \<Rightarrow> nat \<Rightarrow> nat \<Rightarrow> byte list" where
  "wav_header c r dataLength =
     ascii ''RIFF'' @ uint32_le (36 + dataLength) @ ascii ''WAVE''
     @ ascii ''fmt '' @ uint32_le 16 @ uint16_le 1 @ uint16_le c
     @ uint32_le r @ uint32_le (r * c * 2) @ uint16_le (c * 2) @ uint16_le 16
     @ ascii ''data'' @ uint32_le dataLength"

lemma split_byte: "(a::nat) mod 256 + 256 * (a div 256) = a"
  by simp

lemma le_value_u16_bytes: "le_value (u16_bytes w) = unat w"
proof -
  define a where "a = unat w"
  have "a < 2 ^ 16" using unsigned_less [of w] by (simp add: a_def)
  then have "a div 256 < 256" by simp
  then have "a mod 256 + 256 * (a div 256 mod 256) = a"
    by (simp only: mod_less split_byte)
  then show ?thesis
    by (simp add: u16_bytes_def unsigned_ucast_eq unat_drop_bit_eq take_bit_eq_mod drop_bit_eq_div unat_div_distrib
        a_def)
qed

lemma le_value_u32_bytes: "le_value (u32_bytes w) = unat w"
proof -
  define a where "a = unat w"
  define b where "b = a div 256"
  define c where "c = b div 256"
  define d where "d = c div 256"
  have "a < 2 ^ 32" using unsigned_less [of w] by (simp add: a_def)
  then have "d < 256"
    unfolding d_def c_def b_def by (simp add: div_mult2_eq [symmetric])
  then have dm: "d mod 256 = d" by simp
  have "c mod 256 + 256 * d = c" unfolding d_def by (rule split_byte)
  moreover have "b mod 256 + 256 * c = b" unfolding c_def by (rule split_byte)
  moreover have "a mod 256 + 256 * b = a" unfolding b_def by (rule split_byte)
  ultimately have "a mod 256 + 256 * (b mod 256 + 256 * (c mod 256 + 256 * d)) = a"
    by simp
  moreover have "a div 65536 = c" "a div 16777216 = d"
    unfolding d_def c_def b_def by (simp_all add: div_mult2_eq [symmetric])
  ultimately show ?thesis
    by (simp add: u32_bytes_def unsigned_ucast_eq unat_drop_bit_eq take_bit_eq_mod drop_bit_eq_div unat_div_distrib
        a_def [symmetric] b_def [symmetric] dm)
qed

lemma le_value_uint16: "n < 2 ^ 16 \<Longrightarrow> le_value (uint16_le n) = n"
  by (simp add: uint16_le_def le_value_u16_bytes unat_of_nat)

lemma le_value_uint32: "n < 2 ^ 32 \<Longrightarrow> le_value (uint32_le n) = n"
  by (simp add: uint32_le_def le_value_u32_bytes unat_of_nat)

lemma length_uint16_le [simp]: "length (uint16_le n) = 2"
  by (simp add: uint16_le_def)

lemma length_uint32_le [simp]: "length (uint32_le n) = 4"
  by (simp add: uint32_le_def)

lemma length_wav_header [simp]: "length (wav_header c r len) = 44"
  by (simp add: wav_header_def)

lemma byte_rate_word:
  "(word_of_int (to_integer
      (js_divide (js_times (js_times (Fin (real r)) (Fin (real c))) (Fin 16)) 8)) :: 32 word)
   = word_of_nat (r * c * 2)"
proof -
  have "real r * real c * 16 / 8 = real (r * c * 2)" by simp
  then have "to_integer (js_divide (js_times (js_times (Fin (real r)) (Fin (real c))) (Fin 16)) 8)
             = int (r * c * 2)"
    by (simp only: js_times.simps js_divide.simps to_integer.simps trunc_of_nat)
  then show ?thesis
    by (simp only: of_int_of_nat_eq)
qed

lemma header_bytes_nat_rate:
  "header_bytes c (Fin (real r)) len = wav_header c r len"
  unfolding header_bytes_def wav_header_def uint32_le_def uint16_le_def
  by (simp only: byte_rate_word nat_field_word of_nat_numeral of_nat_1)

lemma wav_header_fields:
  fixes rest :: "byte list" and c r len :: nat
  defines "bytes \<equiv> wav_header c r len @ rest"
  shows "field 4 4 bytes = le_value (uint32_le (36 + len))"
    and "field 16 4 bytes = le_value (uint32_le 16)"
    and "field 20 2 bytes = le_value (uint16_le 1)"
    and "field 22 2 bytes = le_value (uint16_le c)"
    and "field 24 4 bytes = le_value (uint32_le r)"
    and "field 28 4 bytes = le_value (uint32_le (r * c * 2))"
    and "field 32 2 bytes = le_value (uint16_le (c * 2))"
    and "field 34 2 bytes = le_value (uint16_le 16)"
    and "field 40 4 bytes = le_value (uint32_le len)"
  by (simp_all add: bytes_def field_def wav_header_def)

text \<open>
  Claim C3. For a buffer with \<open>c\<close> channels, \<open>n\<close> frames and sample rate \<open>r\<close>,
  \<open>encodeWAV\<close> returns exactly \<open>44 + n * c * 2\<close> bytes of type \<open>audio/wav\<close>; no
  write falls outside the allocated view. The first 44 bytes are \<open>RIFF\<close>, the chunk
  size \<open>36 + dataLength\<close>, \<open>WAVE\<close>, \<open>fmt \<close>, the sub-chunk size 16, the format tag 1,
  the channel count, the sample rate, the byte rate \<open>r * c * 2\<close>, the block align
  \<open>c * 2\<close>, 16 bits per sample, \<open>data\<close> and \<open>dataLength = n * c * 2\<close>, every number
  little-endian. A field holds its number modulo the width of the field
  (\<open>setUint16\<close>, \<open>setUint32\<close>); read back, it is the number itself whenever the number
  fits.
\<close>

theorem encodeWAV_header_and_size:
  assumes "sampleRate buffer = Fin (real r)"
  shows "(let c = numberOfChannels buffer; n = bufferLength buffer; dataLength = n * c * 2
          in \<exists>bytes.
               encodeWAV buffer = Inr \<lparr>blob_bytes = bytes, blob_type = ''audio/wav''\<rparr>
               \<and> length bytes = 44 + dataLength
               \<and> take 44 bytes = wav_header c r dataLength
               \<and> field 16 4 bytes = 16 \<and> field 20 2 bytes = 1 \<and> field 34 2 bytes = 16
               \<and> (36 + dataLength < 2 ^ 32 \<longrightarrow>
                     field 4 4 bytes = 36 + dataLength \<and> field 40 4 bytes = dataLength)
               \<and> (c * 2 < 2 ^ 16 \<longrightarrow> field 22 2 bytes = c \<and> field 32 2 bytes = c * 2)
               \<and> (r < 2 ^ 32 \<longrightarrow> field 24 4 bytes = r)
               \<and> (r * c * 2 < 2 ^ 32 \<longrightarrow> field 28 4 bytes = r * c * 2))"
proof -
  define c where "c = numberOfChannels buffer"
  define len where "len = bufferLength buffer * c * 2"
  define bytes where "bytes = wav_header c r len @ pcm_bytes buffer"
  have enc: "encodeWAV buffer = Inr \<lparr>blob_bytes = bytes, blob_type = ''audio/wav''\<rparr>"
    by (simp only: encodeWAV_closed_form assms header_bytes_nat_rate bytes_def len_def c_def)
  have size: "length bytes = 44 + len"
    by (simp add: bytes_def len_def c_def)
  have hdr: "take 44 bytes = wav_header c r len"
    by (simp add: bytes_def)
  note f = wav_header_fields [of c r len "pcm_bytes buffer", folded bytes_def]
  have kfields: "field 16 4 bytes = 16" "field 20 2 bytes = 1" "field 34 2 bytes = 16"
    by (simp_all add: f le_value_uint16 le_value_uint32)
  have sizes: "36 + len < 2 ^ 32 \<longrightarrow> field 4 4 bytes = 36 + len \<and> field 40 4 bytes = len"
    by (simp add: f le_value_uint32)
  have chans: "c * 2 < 2 ^ 16 \<longrightarrow> field 22 2 bytes = c \<and> field 32 2 bytes = c * 2"
    by (simp add: f le_value_uint16)
  have rate: "r < 2 ^ 32 \<longrightarrow> field 24 4 bytes = r"
    by (simp add: f le_value_uint32)
  have brate: "r * c * 2 < 2 ^ 32 \<longrightarrow> field 28 4 bytes = r * c * 2"
    by (simp add: f le_value_uint32)
  from enc size hdr kfields sizes chans rate brate show ?thesis
    unfolding Let_def c_def [symmetric] len_def [symmetric] by blast
qed

text \<open>
  The example of the specification: one channel, the two samples \<open>1.0\<close> and \<open>-1.0\<close>,
  sample rate 16000. The output has 48 bytes: the header, then \<open>FF 7F\<close> and \<open>00 80\<close>.
\<close>

lemma encodeWAV_example_bytes:
  "encodeWAV example_buffer
   = Inr \<lparr>blob_bytes =
    [0x52, 0x49, 0x46, 0x46, 40, 0, 0, 0, 0x57, 0x41, 0x56, 0x45,
     0x66, 0x6D, 0x74, 0x20, 16, 0, 0, 0, 1, 0, 1, 0,
     0x80, 0x3E, 0, 0, 0x00, 0x7D, 0, 0, 2, 0, 16, 0,
     0x64, 0x61, 0x74, 0x61, 4, 0, 0, 0, 0xFF, 0x7F, 0x00, 0x80], blob_type = ''audio/wav''\<rparr>"
  by (simp add: encodeWAV_def example_buffer_def numberOfChannels_def getChannelData_def
      writeString_def setUint8_def setUint16_def setUint32_def setInt16_def put_bytes_def
      u16_bytes_def u32_bytes_def and_then_def charCode_def pcm_value_def write_sample_def sample_at_def trunc_def
      Let_def upt_conv_Cons)

theorem encodeWAV_header_and_size_witness:
  "sampleRate example_buffer = Fin (real 16000)
   \<and> (\<exists>bytes.
         encodeWAV example_buffer = Inr \<lparr>blob_bytes = bytes, blob_type = ''audio/wav''\<rparr>
         \<and> length bytes = 48
         \<and> take 44 bytes = wav_header 1 16000 4
         \<and> field 16 4 bytes = 16 \<and> field 20 2 bytes = 1 \<and> field 34 2 bytes = 16
         \<and> field 4 4 bytes = 40 \<and> field 40 4 bytes = 4
         \<and> field 22 2 bytes = 1 \<and> field 32 2 bytes = 2
         \<and> field 24 4 bytes = 16000
         \<and> field 28 4 bytes = 32000)"
  using encodeWAV_header_and_size [of example_buffer 16000]
  by (simp add: example_buffer_def numberOfChannels_def Let_def)

text \<open>
  The sample conversion as the specification words it: clamp to \<open>[-1, 1]\<close>, scale by
  32768 below zero and by 32767 otherwise, truncate. An infinite sample clamps to an end
  of the range; \<open>NaN\<close> is not changed by the clamp, is not below zero, and is written
  as 0 by \<open>setInt16\<close>.
\<close>

fun pcm16 :: "jsnum \<Rightarrow> int" where
  "pcm16 (Fin x) =
     (let clamped = max (- 1) (min 1 x)
      in trunc (if clamped < 0 then clamped * 32768 else clamped * 32767))"
| "pcm16 PosInf = 32767"
| "pcm16 NegInf = - 32768"
| "pcm16 NaN = 0"

lemma trunc_neg_numeral [simp]: "trunc (- numeral n) = - numeral n"
  by (simp add: trunc_def)

lemma pcm_value_pcm16: "to_integer (pcm_value s) = pcm16 s"
  by (cases s) (auto simp: pcm_value_def Let_def min_less_iff_disj)

lemma pcm16_range: "- 32768 \<le> pcm16 s \<and> pcm16 s \<le> 32767"
proof (cases s)
  case (Fin x)
  define c where "c = max (- 1) (min 1 x)"
  have c: "- 1 \<le> c" "c \<le> 1" by (simp_all add: c_def)
  show ?thesis
  proof (cases "c < 0")
    case True
    from c have "- 32768 \<le> c * 32768" by simp
    then have "- 32768 \<le> \<lceil>c * 32768\<rceil>" by (simp add: le_ceiling_iff)
    moreover from True have "\<lceil>c * 32768\<rceil> \<le> 0" by (simp add: ceiling_le_iff mult_le_0_iff)
    ultimately show ?thesis using True Fin
      by (simp add: c_def [symmetric] trunc_def Let_def mult_less_0_iff)
  next
    case False
    then have "0 \<le> c * 32767" by simp
    then have "0 \<le> \<lfloor>c * 32767\<rfloor>" by simp
    moreover from c have "c * 32767 \<le> 32767" by simp
    then have "\<lfloor>c * 32767\<rfloor> \<le> 32767" by (simp add: floor_le_iff)
    ultimately show ?thesis using False Fin
      by (simp add: c_def [symmetric] trunc_def Let_def mult_less_0_iff)
  qed
qed simp_all

lemma frame_bytes_valid:
  assumes "list_all (\<lambda>a. i < length a) chans"
  shows "frame_bytes chans i = concat (map (\<lambda>a. int16_le (pcm16 (a ! i))) chans)"
  using assms
  by (induction chans)
    (simp_all add: frame_bytes_def sample_bytes_def sample_at_def int16_le_def pcm_value_pcm16)

lemma pcm_bytes_valid:
  assumes "valid_buffer buffer"
  shows "pcm_bytes buffer
         = concat (map (\<lambda>i. concat (map (\<lambda>a. int16_le (pcm16 (a ! i))) (channels buffer)))
                     [0..<bufferLength buffer])"
proof -
  have "frame_bytes (channels buffer) i
        = concat (map (\<lambda>a. int16_le (pcm16 (a ! i))) (channels buffer))"
    if "i < bufferLength buffer" for i
  proof (rule frame_bytes_valid)
    from assms that show "list_all (\<lambda>a. i < length a) (channels buffer)"
      by (simp add: valid_buffer_def list_all_iff)
  qed
  then have "map (frame_bytes (channels buffer)) [0..<bufferLength buffer]
             = map (\<lambda>i. concat (map (\<lambda>a. int16_le (pcm16 (a ! i))) (channels buffer)))
                 [0..<bufferLength buffer]"
    by simp
  then show ?thesis
    by (simp only: pcm_bytes_def)
qed

text \<open>
  Claim C2 (amended: the example output has 48 bytes, not 46). For a decoded buffer,
  whose channels all have \<open>bufferLength\<close> samples, the bytes from offset 44 on are, frame
  by frame and within a frame channel by channel, the two little-endian bytes of the
  signed 16-bit value \<open>pcm16\<close> of the sample; they are \<open>n * c * 2\<close> bytes. On the
  example buffer the output is the 44-byte header followed by \<open>FF 7F 00 80\<close>, which is
  48 bytes.
\<close>

theorem encodeWAV_pcm_data:
  assumes "valid_buffer buffer"
  shows "(\<exists>bytes.
            encodeWAV buffer = Inr \<lparr>blob_bytes = bytes, blob_type = ''audio/wav''\<rparr>
            \<and> length (drop 44 bytes) = bufferLength buffer * numberOfChannels buffer * 2
            \<and> drop 44 bytes
                = concat (map (\<lambda>i. concat (map (\<lambda>a. int16_le (pcm16 (a ! i))) (channels buffer)))
                            [0..<bufferLength buffer]))
         \<and> (\<forall>s. - 32768 \<le> pcm16 s \<and> pcm16 s \<le> 32767)
         \<and> encodeWAV example_buffer
             = Inr \<lparr>blob_bytes = wav_header 1 16000 4 @ [0xFF, 0x7F, 0x00, 0x80],
                    blob_type = ''audio/wav''\<rparr>
         \<and> length (wav_header 1 16000 4 @ [0xFF, 0x7F, 0x00, 0x80 :: byte]) = 48"
proof -
  have "drop 44 (header_bytes (numberOfChannels buffer) (sampleRate buffer)
                   (bufferLength buffer * numberOfChannels buffer * 2) @ pcm_bytes buffer)
        = pcm_bytes buffer"
    by simp
  with pcm_bytes_valid [OF assms] have general: "\<exists>bytes.
            encodeWAV buffer = Inr \<lparr>blob_bytes = bytes, blob_type = ''audio/wav''\<rparr>
            \<and> length (drop 44 bytes) = bufferLength buffer * numberOfChannels buffer * 2
            \<and> drop 44 bytes
                = concat (map (\<lambda>i. concat (map (\<lambda>a. int16_le (pcm16 (a ! i))) (channels buffer)))
                            [0..<bufferLength buffer])"
    by (simp only: encodeWAV_closed_form) (simp add: length_pcm_bytes [symmetric] del: length_pcm_bytes)
  have example: "encodeWAV example_buffer
             = Inr \<lparr>blob_bytes = wav_header 1 16000 4 @ [0xFF, 0x7F, 0x00, 0x80],
                    blob_type = ''audio/wav''\<rparr>"
    by (simp add: encodeWAV_example_bytes wav_header_def ascii_def uint32_le_def uint16_le_def
        u32_bytes_def u16_bytes_def)
  from general example pcm16_range show ?thesis
    by simp
qed

theorem encodeWAV_pcm_data_witness:
  "valid_buffer example_buffer
   \<and> (\<exists>bytes.
         encodeWAV example_buffer = Inr \<lparr>blob_bytes = bytes, blob_type = ''audio/wav''\<rparr>
         \<and> length (drop 44 bytes) = 4
         \<and> drop 44 bytes = [0xFF, 0x7F, 0x00, 0x80])"
proof -
  have v: "valid_buffer example_buffer"
    by (simp add: valid_buffer_def example_buffer_def)
  from encodeWAV_pcm_data [OF v] v show ?thesis
    by (simp add: example_buffer_def numberOfChannels_def int16_le_def u16_bytes_def
        upt_conv_Cons)
qed

text \<open>
  Claim C2 as stated gives the example output 46 bytes. Two samples of two bytes follow
  the 44-byte header, so the output has 48 bytes.
\<close>

theorem encodeWAV_example_not_46_bytes:
  "\<not> isl (encodeWAV example_buffer)
   \<and> length (blob_bytes (projr (encodeWAV example_buffer))) \<noteq> 46"
  by (simp add: encodeWAV_example_bytes)

subsection \<open>Buffers with no channel or without a finite sample rate\<close>

text \<open>
  Claim C9 as stated says that \<open>encodeWAV\<close> fails on a buffer with zero channels or a
  non-finite sample rate. The function has no check of its input: on such a buffer it
  returns a file like on any other.
\<close>

definition malformed_buffer :: AudioBuffer where
  "malformed_buffer = \<lparr>sampleRate = NaN, bufferLength = 2, channels = []\<rparr>"


lemma header_bytes_fields:
  fixes rest :: "byte list" and c len :: nat and rate :: jsnum
  defines "bytes \<equiv> header_bytes c rate len @ rest"
  shows "field 22 2 bytes = unat (word_of_nat c :: 16 word)"
    and "field 24 4 bytes = unat (word_of_int (to_integer rate) :: 32 word)"
    and "field 28 4 bytes = unat (word_of_int (to_integer
           (js_divide (js_times (js_times rate (Fin (real c))) (Fin 16)) 8)) :: 32 word)"
    and "field 40 4 bytes = unat (word_of_nat len :: 32 word)"
  by (simp_all add: bytes_def field_def header_bytes_def le_value_u32_bytes le_value_u16_bytes
      del: js_times.simps js_divide.simps to_integer.simps of_nat_mult of_nat_add)

definition non_finite :: "jsnum \<Rightarrow> bool" where
  "non_finite x = (case x of Fin r \<Rightarrow> False | _ \<Rightarrow> True)"

lemma non_finite_byte_rate:
  "non_finite rate \<Longrightarrow>
   to_integer (js_divide (js_times (js_times rate (Fin x)) (Fin 16)) 8) = 0"
  by (cases rate) (auto simp: non_finite_def)



section \<open>Strings\<close>

text \<open>
  Strings are lists of characters, ordered as \<open><\<close> and \<open>sort()\<close> order JavaScript
  strings: lexicographically by code unit. \<open>string_of_nat\<close> is \<open>String(n)\<close> for a
  non-negative integer, \<open>padStart\<close> is called with a one-character filler only, and
  \<open>string_includes\<close> is \<open>String.prototype.includes\<close>.
\<close>

definition digit_char :: "nat \<Rightarrow> char" where
  "digit_char d = char_of (48 + d)"

function string_of_nat :: "nat \<Rightarrow> string" where
  "string_of_nat n =
     (if n < 10 then [digit_char n] else string_of_nat (n div 10) @ [digit_char (n mod 10)])"
  by pat_completeness auto
termination
  by (relation "measure id") auto

declare string_of_nat.simps [simp del]

definition padStart :: "string \<Rightarrow> nat \<Rightarrow> char \<Rightarrow> string" where
  "padStart s targetLength c = replicate (targetLength - length s) c @ s"

definition string_includes :: "string \<Rightarrow> string \<Rightarrow> bool" where
  "string_includes s searchString = sublist searchString s"

subsection \<open>Fixed-width decimal numbers order like the numbers\<close>

fun fixed_width :: "nat \<Rightarrow> nat \<Rightarrow> string" where
  "fixed_width 0 n = []"
| "fixed_width (Suc k) n = fixed_width k (n div 10) @ [digit_char (n mod 10)]"

lemma length_fixed_width [simp]: "length (fixed_width k n) = k"
  by (induction k arbitrary: n) simp_all

lemma digit_char_0: "digit_char 0 = CHR ''0''"
  unfolding digit_char_def by code_simp

lemma fixed_width_0: "fixed_width k 0 = replicate k (CHR ''0'')"
  by (induction k) (simp_all add: digit_char_0 replicate_append_same)

lemma padStart_string_of_nat:
  "0 < k \<Longrightarrow> n < 10 ^ k \<Longrightarrow> padStart (string_of_nat n) k (CHR ''0'') = fixed_width k n"
proof (induction n arbitrary: k rule: string_of_nat.induct)
  case (1 n)
  from "1.prems" obtain j where k: "k = Suc j" by (cases k) auto
  show ?case
  proof (cases "n < 10")
    case True
    then show ?thesis
      by (simp add: k string_of_nat.simps [of n] padStart_def fixed_width_0 replicate_append_same)
  next
    case False
    with "1.prems" k have j: "0 < j" by (cases j) auto
    from "1.prems" k have "n div 10 < 10 ^ j"
      by (simp add: less_mult_imp_div_less mult.commute)
    from "1.IH" [OF False j this]
    have IH: "padStart (string_of_nat (n div 10)) j (CHR ''0'') = fixed_width j (n div 10)" .
    have "length (string_of_nat (n div 10)) \<le> j"
    proof (rule ccontr)
      assume "\<not> length (string_of_nat (n div 10)) \<le> j"
      with IH have "length (fixed_width j (n div 10)) > j"
        by (simp add: padStart_def flip: IH)
      then show False by simp
    qed
    with IH False show ?thesis
      by (simp add: k string_of_nat.simps [of n] padStart_def Suc_diff_le)
  qed
qed

lemma of_char_digit_char: "a < 10 \<Longrightarrow> of_char (digit_char a) = 48 + a"
  by (simp add: digit_char_def)

lemma digit_char_less: "a < 10 \<Longrightarrow> b < 10 \<Longrightarrow> digit_char a < digit_char b \<longleftrightarrow> a < b"
  by (simp add: less_char_def of_char_digit_char)

lemma digit_char_eq: "a < 10 \<Longrightarrow> b < 10 \<Longrightarrow> digit_char a = digit_char b \<longleftrightarrow> a = b"
proof
  assume "a < 10" "b < 10" "digit_char a = digit_char b"
  then have "(48 + a :: nat) = 48 + b"
    by (metis of_char_digit_char)
  then show "a = b" by simp
qed simp

lemma snoc_less_snoc:
  fixes xs ys :: "'a::linorder list"
  shows "length xs = length ys \<Longrightarrow> xs @ [a] < ys @ [b] \<longleftrightarrow> xs < ys \<or> xs = ys \<and> a < b"
  by (induction xs ys rule: list_induct2) auto

lemma fixed_width_eq:
  "n < 10 ^ k \<Longrightarrow> m < 10 ^ k \<Longrightarrow> fixed_width k n = fixed_width k m \<longleftrightarrow> n = m"
proof (induction k arbitrary: n m)
  case 0
  then show ?case by simp
next
  case (Suc k)
  then have d: "n div 10 < 10 ^ k" "m div 10 < 10 ^ k"
    by (simp_all add: less_mult_imp_div_less mult.commute)
  have "n = m \<longleftrightarrow> n div 10 = m div 10 \<and> n mod 10 = m mod 10"
    by (metis div_mult_mod_eq)
  with Suc.IH [OF d] show ?case
    by (simp add: digit_char_eq)
qed

lemma fixed_width_less:
  "n < 10 ^ k \<Longrightarrow> m < 10 ^ k \<Longrightarrow> fixed_width k n < fixed_width k m \<longleftrightarrow> n < m"
proof (induction k arbitrary: n m)
  case 0
  then show ?case by simp
next
  case (Suc k)
  then have d: "n div 10 < 10 ^ k" "m div 10 < 10 ^ k"
    by (simp_all add: less_mult_imp_div_less mult.commute)
  define qn rn qm rm where "qn = n div 10" and "rn = n mod 10" and "qm = m div 10"
    and "rm = m mod 10"
  have "n = 10 * qn + rn" "m = 10 * qm + rm" "rn < 10" "rm < 10"
    by (simp_all add: qn_def rn_def qm_def rm_def)
  then have "n < m \<longleftrightarrow> qn < qm \<or> qn = qm \<and> rn < rm"
    by linarith
  then have split: "n < m \<longleftrightarrow> n div 10 < m div 10 \<or> n div 10 = m div 10 \<and> n mod 10 < m mod 10"
    by (simp only: qn_def rn_def qm_def rm_def)
  have "fixed_width (Suc k) n < fixed_width (Suc k) m
        \<longleftrightarrow> fixed_width k (n div 10) < fixed_width k (m div 10)
            \<or> fixed_width k (n div 10) = fixed_width k (m div 10)
              \<and> digit_char (n mod 10) < digit_char (m mod 10)"
    by (simp add: snoc_less_snoc)
  also have "\<dots> \<longleftrightarrow> n div 10 < m div 10 \<or> n div 10 = m div 10 \<and> n mod 10 < m mod 10"
    by (simp only: Suc.IH [OF d] fixed_width_eq [OF d]) (simp add: digit_char_less)
  finally show ?case
    by (simp only: split)
qed

text \<open>
  \<open>trim\<close>, \<open>toLowerCase\<close> and \<open>split\<close> on the ASCII characters, which is where
  MIME types live.
\<close>

definition is_space :: "char \<Rightarrow> bool" where
  "is_space c = (c \<in> set [CHR '' '', CHR 0x09, CHR 0x0A, CHR 0x0B, CHR 0x0C, CHR 0x0D])"

definition trim :: "string \<Rightarrow> string" where
  "trim s = rev (dropWhile is_space (rev (dropWhile is_space s)))"

definition toLowerCase :: "string \<Rightarrow> string" where
  "toLowerCase s =
     map (\<lambda>c. if CHR ''A'' \<le> c \<and> c \<le> CHR ''Z'' then char_of (of_char c + (32::nat)) else c) s"

fun split :: "string \<Rightarrow> char \<Rightarrow> string list" where
  "split [] sep = [[]]"
| "split (c # s) sep =
     (if c = sep then [] # split s sep
      else (case split s sep of [] \<Rightarrow> [[c]] | p # ps \<Rightarrow> (c # p) # ps))"

section \<open>The vault adapter\<close>

text \<open>
  The vault is a table of files (path and contents) and a list of folders. What the
  program cannot determine is a parameter, collected in \<open>host\<close>: whether a given
  adapter call throws, the order in which a directory listing comes back, the JSON
  codec of the manifest (\<open>JSON_parse\<close> is \<open>None\<close> where \<open>JSON.parse\<close> throws; a
  parsed manifest has the fields of \<open>TempManifest\<close>, an absent \<open>mimeType\<close> being the
  empty string), \<open>decodeAudioData\<close> (\<open>None\<close> where it rejects), and whether the
  consumer's \<open>process\<close> callback throws. A call that throws leaves the vault as it was;
  reading a file that does not exist and listing a folder that does not exist throw.
  \<open>inside dir p\<close> says that \<open>p\<close> lies below \<open>dir\<close>, \<open>child_of dir p\<close> that it lies
  directly in it.
\<close>

datatype adapter_call =
  Exists | List | Read | ReadBinary | Write | WriteBinary | Rmdir | Remove

record TempManifest =
  mimeType :: string
  startedAt :: string
  chunkCount :: int

record date =
  getFullYear :: nat
  getMonth :: nat
  getDate :: nat
  getHours :: nat
  getMinutes :: nat
  getSeconds :: nat

record host =
  pluginId :: string
  has_rmdir :: bool
  throws :: "adapter_call \<Rightarrow> string \<Rightarrow> bool"
  list_order :: "string list \<Rightarrow> string list"
  JSON_parse :: "byte list \<Rightarrow> TempManifest option"
  JSON_stringify :: "TempManifest \<Rightarrow> byte list"
  toISOString :: "date \<Rightarrow> string"
  decodeAudioData :: "nat \<Rightarrow> byte list \<Rightarrow> AudioBuffer option"
  process_throws :: "Blob \<Rightarrow> string \<Rightarrow> bool"

record vault =
  files :: "(string \<times> byte list) list"
  folders :: "string list"

record listing =
  listed_files :: "string list"
  listed_folders :: "string list"

definition inside :: "string \<Rightarrow> string \<Rightarrow> bool" where
  "inside dir p = prefix (dir @ ''/'') p"

definition child_of :: "string \<Rightarrow> string \<Rightarrow> bool" where
  "child_of dir p =
     (inside dir p \<and> (let name = drop (length dir + 1) p in name \<noteq> [] \<and> CHR ''/'' \<notin> set name))"

definition adapter_exists :: "host \<Rightarrow> vault \<Rightarrow> string \<Rightarrow> js_error + bool" where
  "adapter_exists h v p =
     (if throws h Exists p then Inl IOError
      else Inr (p \<in> set (map fst (files v)) \<or> p \<in> set (folders v)))"

definition adapter_list :: "host \<Rightarrow> vault \<Rightarrow> string \<Rightarrow> js_error + listing" where
  "adapter_list h v dir =
     (if throws h List dir \<or> dir \<notin> set (folders v) then Inl IOError
      else Inr \<lparr>listed_files = list_order h (filter (child_of dir) (map fst (files v))),
                listed_folders = list_order h (filter (child_of dir) (folders v))\<rparr>)"

definition adapter_read :: "host \<Rightarrow> vault \<Rightarrow> string \<Rightarrow> js_error + byte list" where
  "adapter_read h v p =
     (if throws h Read p then Inl IOError
      else (case map_of (files v) p of None \<Rightarrow> Inl IOError | Some d \<Rightarrow> Inr d))"

definition adapter_readBinary :: "host \<Rightarrow> vault \<Rightarrow> string \<Rightarrow> js_error + byte list" where
  "adapter_readBinary h v p =
     (if throws h ReadBinary p then Inl IOError
      else (case map_of (files v) p of None \<Rightarrow> Inl IOError | Some d \<Rightarrow> Inr d))"

definition adapter_write :: "host \<Rightarrow> vault \<Rightarrow> string \<Rightarrow> byte list \<Rightarrow> js_error + vault" where
  "adapter_write h v p d =
     (if throws h Write p then Inl IOError
      else Inr (v\<lparr>files := AList.update p d (files v)\<rparr>))"

definition adapter_writeBinary :: "host \<Rightarrow> vault \<Rightarrow> string \<Rightarrow> byte list \<Rightarrow> js_error + vault" where
  "adapter_writeBinary h v p d =
     (if throws h WriteBinary p then Inl IOError
      else Inr (v\<lparr>files := AList.update p d (files v)\<rparr>))"

definition adapter_rmdir_recursive :: "host \<Rightarrow> vault \<Rightarrow> string \<Rightarrow> js_error + vault" where
  "adapter_rmdir_recursive h v p =
     (if throws h Rmdir p then Inl IOError
      else Inr (v\<lparr>files := filter (\<lambda>(q, d). \<not> inside p q) (files v),
                   folders := filter (\<lambda>q. q \<noteq> p \<and> \<not> inside p q) (folders v)\<rparr>))"

definition adapter_remove :: "host \<Rightarrow> vault \<Rightarrow> string \<Rightarrow> js_error + vault" where
  "adapter_remove h v p =
     (if throws h Remove p then Inl IOError
      else Inr (v\<lparr>files := filter (\<lambda>(q, d). q \<noteq> p) (files v),
                   folders := filter (\<lambda>q. q \<noteq> p) (folders v)\<rparr>))"

section \<open>TempRecordingManager\<close>

text \<open>
  The fields of the class; \<open>recordingMimeType\<close> is \<open>this.mimeType\<close>. \<open>sessionId\<close>
  and \<open>newSessionPath\<close> are the name that \<open>startSession\<close> gives a session
  (\<open>getMonth\<close> counts from 0). \<open>updateManifestCount\<close> is the body of the \<open>try\<close> block
  of \<open>writeIncrementalChunk\<close>, \<open>chunkPathOf\<close> its \<open>chunkPath\<close>.
\<close>

record TempRecordingManager =
  sessionPath :: "string option"
  chunkIndex :: nat
  recordingMimeType :: string
  sessionFilePath :: "string option"

definition getPluginFolderPath :: "host \<Rightarrow> string" where
  "getPluginFolderPath h = ''.obsidian/plugins/'' @ pluginId h"

definition getTmpRootPath :: "host \<Rightarrow> string" where
  "getTmpRootPath h = getPluginFolderPath h @ ''/tmp''"

definition getExtensionFromMime :: "string \<Rightarrow> string" where
  "getExtensionFromMime mime =
     (let parts = split mime (CHR ''/'')
      in if length parts > 1
         then (let subtype = toLowerCase (trim (hd (split (parts ! 1) (CHR '';''))))
               in if subtype \<noteq> [] then subtype else ''dat'')
         else ''dat'')"

definition pad2 :: "nat \<Rightarrow> string" where
  "pad2 n = padStart (string_of_nat n) 2 (CHR ''0'')"

definition sessionId :: "date \<Rightarrow> string" where
  "sessionId now =
     string_of_nat (getFullYear now) @ pad2 (getMonth now + 1) @ pad2 (getDate now) @ ''_''
     @ pad2 (getHours now) @ pad2 (getMinutes now) @ pad2 (getSeconds now)"

definition newSessionPath :: "host \<Rightarrow> date \<Rightarrow> string" where
  "newSessionPath h now = getTmpRootPath h @ ''/session-'' @ sessionId now"

definition try_catch :: "'e + 'a \<Rightarrow> ('e \<Rightarrow> 'f + 'a) \<Rightarrow> 'f + 'a" where
  "try_catch body handler = (case body of Inl e \<Rightarrow> handler e | Inr x \<Rightarrow> Inr x)"

definition chunkPathOf :: "string \<Rightarrow> nat \<Rightarrow> string" where
  "chunkPathOf sp idx =
     sp @ ''/chunk-'' @ padStart (string_of_nat idx) 4 (CHR ''0'') @ ''.dat''"

definition manifestPathOf :: "string \<Rightarrow> string" where
  "manifestPathOf sp = sp @ ''/manifest.json''"

definition updateManifestCount :: "host \<Rightarrow> vault \<Rightarrow> string \<Rightarrow> nat \<Rightarrow> js_error + vault" where
  "updateManifestCount h v sp idx =
     (let manifestPath = manifestPathOf sp
      in and_then (adapter_read h v manifestPath) (\<lambda>manifestRaw.
           (case JSON_parse h manifestRaw of
              None \<Rightarrow> Inl SyntaxError
            | Some manifest \<Rightarrow>
                adapter_write h v manifestPath
                  (JSON_stringify h
                     (manifest\<lparr>chunkCount := max (chunkCount manifest) (int idx + 1)\<rparr>)))))"

definition blob_size :: "Blob \<Rightarrow> nat" where
  "blob_size b = length (blob_bytes b)"

definition writeIncrementalChunk ::
  "host \<Rightarrow> TempRecordingManager \<Rightarrow> vault \<Rightarrow> Blob option \<Rightarrow> nat \<Rightarrow> js_error + vault" where
  "writeIncrementalChunk h this v blob idx =
     (case sessionPath this of
        None \<Rightarrow> Inr v
      | Some sp \<Rightarrow>
          (case blob of
             None \<Rightarrow> Inr v
           | Some b \<Rightarrow>
               if blob_size b = 0 then Inr v
               else and_then (adapter_writeBinary h v (chunkPathOf sp idx) (blob_bytes b)) (\<lambda>v.
                      try_catch (updateManifestCount h v sp idx) (\<lambda>e. Inr v))))"

definition writeSnapshot ::
  "host \<Rightarrow> TempRecordingManager \<Rightarrow> vault \<Rightarrow> Blob option
   \<Rightarrow> js_error + TempRecordingManager \<times> vault" where
  "writeSnapshot h this v blob =
     (case sessionPath this of
        None \<Rightarrow> Inr (this, v)
      | Some sp \<Rightarrow>
          (case blob of
             None \<Rightarrow> Inr (this, v)
           | Some b \<Rightarrow>
               if blob_size b = 0 then Inr (this, v)
               else
                 (let targetPath =
                        (case sessionFilePath this of
                           Some f \<Rightarrow> if f \<noteq> [] then f
                                     else sp @ ''/recording.'' @ getExtensionFromMime (recordingMimeType this)
                         | None \<Rightarrow> sp @ ''/recording.'' @ getExtensionFromMime (recordingMimeType this))
                  in and_then (adapter_writeBinary h v targetPath (blob_bytes b)) (\<lambda>v.
                       (let this = this\<lparr>chunkIndex := chunkIndex this + 1\<rparr>
                        in try_catch
                             (and_then (adapter_read h v (manifestPathOf sp)) (\<lambda>manifestRaw.
                                (case JSON_parse h manifestRaw of
                                   None \<Rightarrow> Inl SyntaxError
                                 | Some manifest \<Rightarrow>
                                     and_then
                                       (adapter_write h v (manifestPathOf sp)
                                          (JSON_stringify h
                                             (manifest\<lparr>chunkCount := int (chunkIndex this)\<rparr>)))
                                       (\<lambda>v. Inr (this, v)))))
                             (\<lambda>e. Inr (this, v)))))))"

definition appendChunk ::
  "host \<Rightarrow> TempRecordingManager \<Rightarrow> vault \<Rightarrow> Blob option \<Rightarrow> nat option
   \<Rightarrow> js_error + TempRecordingManager \<times> vault" where
  "appendChunk h this v blob idx =
     (case idx of
        Some i \<Rightarrow> and_then (writeIncrementalChunk h this v blob i) (\<lambda>v. Inr (this, v))
      | None \<Rightarrow> writeSnapshot h this v blob)"

text \<open>
  \<open>sessionFolders.sort((a, b) => (a > b ? -1 : 1))\<close> puts the greater string first.
  The comparator answers 1 for two equal strings, which no sort can tell apart, so the
  result is the list sorted in descending order: the reverse of \<open>sort\<close>.
\<close>

definition findLatestSessionPath :: "host \<Rightarrow> vault \<Rightarrow> js_error + string option" where
  "findLatestSessionPath h v =
     (let tmpRoot = getTmpRootPath h
      in and_then (adapter_exists h v tmpRoot) (\<lambda>ex.
           if \<not> ex then Inr None
           else and_then (adapter_list h v tmpRoot) (\<lambda>listing.
                  (let sessionFolders =
                         filter (\<lambda>f. string_includes f ''/session-'') (listed_folders listing)
                   in if length sessionFolders = 0 then Inr None
                      else Inr (Some (hd (rev (sort sessionFolders))))))))"

text \<open>
  \<open>deleteSession\<close> removes the folder with \<open>rmdir\<close> where the adapter has it
  (\<open>has_rmdir\<close>; the adapter of the host application does), and by hand otherwise:
  \<open>removeByHand\<close> removes the listed files, deletes the listed folders in the same
  way and removes the folder itself, stopping at the first call that throws, as the
  enclosing \<open>try\<close> does. Its first argument bounds the depth of the recursion; a
  folder is never nested deeper than there are folders in the vault.
\<close>

fun removeEach :: "host \<Rightarrow> string list \<Rightarrow> vault \<Rightarrow> vault \<times> bool" where
  "removeEach h [] v = (v, True)"
| "removeEach h (f # fs) v =
     (case adapter_remove h v f of Inl e \<Rightarrow> (v, False) | Inr v' \<Rightarrow> removeEach h fs v')"

fun removeByHand :: "nat \<Rightarrow> host \<Rightarrow> vault \<Rightarrow> string \<Rightarrow> vault" where
  "removeByHand 0 h v target = v"
| "removeByHand (Suc depth) h v target =
     (case adapter_list h v target of
        Inl e \<Rightarrow> v
      | Inr listing \<Rightarrow>
          (let (v, removed) = removeEach h (listed_files listing) v
           in if \<not> removed then v
              else (let v = fold (\<lambda>d v. removeByHand depth h v d) (listed_folders listing) v
                    in (case adapter_remove h v target of Inl e \<Rightarrow> v | Inr v' \<Rightarrow> v'))))"

definition deleteSession ::
  "host \<Rightarrow> TempRecordingManager \<Rightarrow> vault \<Rightarrow> string option \<Rightarrow> TempRecordingManager \<times> vault" where
  "deleteSession h this v path =
     (let given = (case path of None \<Rightarrow> False | Some p \<Rightarrow> p \<noteq> []);
          target = (if given then path else sessionPath this)
      in (case target of
            None \<Rightarrow> (this, v)
          | Some t \<Rightarrow>
              if t = [] then (this, v)
              else
                (let v = (if has_rmdir h
                          then (case adapter_rmdir_recursive h v t of Inl e \<Rightarrow> v | Inr v' \<Rightarrow> v')
                          else removeByHand (length (folders v)) h v t)
                 in if \<not> given
                    then (this\<lparr>sessionPath := None, chunkIndex := 0, recordingMimeType := [],
                               sessionFilePath := None\<rparr>, v)
                    else (this, v))))"

definition generateTimestampedName :: "date \<Rightarrow> string \<Rightarrow> string" where
  "generateTimestampedName now ext =
     string_of_nat (getFullYear now) @ ''-'' @ pad2 (getMonth now + 1) @ ''-'' @ pad2 (getDate now)
     @ ''_'' @ pad2 (getHours now) @ ''-'' @ pad2 (getMinutes now) @ ''.'' @ ext"

text \<open>
  \<open>assembleBlobFromSession\<close> in its parts: \<open>listChunks\<close> lists and sorts the chunk
  files, \<open>readChunks\<close> is the loop that reads them, \<open>convertToWav\<close> the conversion
  with its \<open>try\<close>, \<open>finally\<close> and \<open>catch\<close>. The function returns the blob or the
  error, and the context manager as the calls left it.
\<close>

definition readChunks :: "host \<Rightarrow> vault \<Rightarrow> string list \<Rightarrow> js_error + byte list list" where
  "readChunks h v chunks =
     for_each chunks
       (\<lambda>chunkFile parts. and_then (adapter_readBinary h v chunkFile) (\<lambda>data. Inr (parts @ [data])))
       []"

definition listChunks :: "host \<Rightarrow> vault \<Rightarrow> string \<Rightarrow> js_error + string list" where
  "listChunks h v sp =
     and_then (adapter_list h v sp) (\<lambda>listing.
       Inr (sort (filter (\<lambda>f. string_includes f ''/chunk-'') (listed_files listing))))"

definition convertToWav ::
  "host \<Rightarrow> AudioContextManager \<Rightarrow> Blob \<Rightarrow> Blob \<times> AudioContextManager" where
  "convertToWav h contextManager rawBlob =
     (let (audioCtx, contextManager) = getContext contextManager;
          converted =
            (case decodeAudioData h audioCtx (blob_bytes rawBlob) of
               None \<Rightarrow> Inl DecodeError
             | Some audioBuffer \<Rightarrow> encodeWAV audioBuffer);
          contextManager = releaseContext contextManager
      in (case converted of Inr wavBlob \<Rightarrow> (wavBlob, contextManager)
          | Inl e \<Rightarrow> (rawBlob, contextManager)))"

definition assembleBlobFromSession ::
  "host \<Rightarrow> vault \<Rightarrow> AudioContextManager \<Rightarrow> string \<Rightarrow> string
   \<Rightarrow> (js_error + Blob) \<times> AudioContextManager" where
  "assembleBlobFromSession h v contextManager sp mime =
     (case listChunks h v sp of
        Inl e \<Rightarrow> (Inl e, contextManager)
      | Inr chunks \<Rightarrow>
          if length chunks > 0
          then (case readChunks h v chunks of
                  Inl e \<Rightarrow> (Inl e, contextManager)
                | Inr parts \<Rightarrow>
                    (let rawBlob = \<lparr>blob_bytes = concat parts, blob_type = mime\<rparr>
                     in if mime \<noteq> ''audio/wav''
                        then (let (blob, contextManager) = convertToWav h contextManager rawBlob
                              in (Inr blob, contextManager))
                        else (Inr rawBlob, contextManager)))
          else
            (let ext = getExtensionFromMime mime;
                 unifiedPath = sp @ ''/recording.'' @ ext
             in (case adapter_exists h v unifiedPath of
                   Inl e \<Rightarrow> (Inl e, contextManager)
                 | Inr ex \<Rightarrow>
                     if ex
                     then (case adapter_readBinary h v unifiedPath of
                             Inl e \<Rightarrow> (Inl e, contextManager)
                           | Inr data \<Rightarrow> (Inr \<lparr>blob_bytes = data, blob_type = mime\<rparr>, contextManager))
                     else (Inl NoRecordingData, contextManager))))"

text \<open>
  \<open>promptAndRecoverIfAny\<close>. The dialog is the choice between its two buttons;
  \<open>onDiscard\<close> and \<open>onRecover\<close> are their handlers. The state they act on is the
  vault, the recorder, the context manager, the calls of \<open>process\<close> made so far and
  the notices shown. \<open>process\<close> is the consumer's callback: the model records the call
  and whether it throws, not what the consumer does with the blob. \<open>scanTime\<close> is the clock when the manifest is read, \<open>clickTime\<close> the clock when
  the button is pressed.
\<close>

datatype decision = Discard | Recover

datatype notice = Recovered | RecoveryFailed js_error

record world =
  vault_of :: vault
  recorder :: TempRecordingManager
  contexts :: AudioContextManager
  processed :: "(Blob \<times> string) list"
  notices :: "notice list"

definition readManifest :: "host \<Rightarrow> date \<Rightarrow> vault \<Rightarrow> string \<Rightarrow> TempManifest" where
  "readManifest h now v sp =
     (case and_then (adapter_read h v (manifestPathOf sp))
             (\<lambda>raw. case JSON_parse h raw of None \<Rightarrow> Inl SyntaxError | Some m \<Rightarrow> Inr m) of
        Inr manifest \<Rightarrow> manifest
      | Inl e \<Rightarrow> \<lparr>mimeType = ''audio/webm'', startedAt = toISOString h now, chunkCount = 0\<rparr>)"

definition onDiscard :: "host \<Rightarrow> string \<Rightarrow> world \<Rightarrow> world" where
  "onDiscard h sp w =
     (let (this, v) = deleteSession h (recorder w) (vault_of w) (Some sp)
      in w\<lparr>vault_of := v, recorder := this\<rparr>)"

definition onRecover :: "host \<Rightarrow> date \<Rightarrow> string \<Rightarrow> TempManifest \<Rightarrow> world \<Rightarrow> world" where
  "onRecover h now sp manifest w =
     (let mime = (if mimeType manifest \<noteq> [] then mimeType manifest else ''audio/webm'');
          (assembled, contextManager) =
            assembleBlobFromSession h (vault_of w) (contexts w) sp mime;
          w = w\<lparr>contexts := contextManager\<rparr>
      in (case assembled of
            Inl err \<Rightarrow> w\<lparr>notices := notices w @ [RecoveryFailed err]\<rparr>
          | Inr blob \<Rightarrow>
              (let ext = getExtensionFromMime mime;
                   fileName = generateTimestampedName now ext;
                   w = w\<lparr>processed := processed w @ [(blob, fileName)]\<rparr>
               in if process_throws h blob fileName
                  then w\<lparr>notices := notices w @ [RecoveryFailed ProcessError]\<rparr>
                  else (let (this, v) = deleteSession h (recorder w) (vault_of w) (Some sp)
                        in w\<lparr>vault_of := v, recorder := this,
                             notices := notices w @ [Recovered]\<rparr>))))"

definition promptAndRecoverIfAny ::
  "host \<Rightarrow> date \<Rightarrow> decision \<Rightarrow> date \<Rightarrow> world \<Rightarrow> js_error + world" where
  "promptAndRecoverIfAny h scanTime choice clickTime w =
     and_then (findLatestSessionPath h (vault_of w)) (\<lambda>found.
       (case found of
          None \<Rightarrow> Inr w
        | Some sp \<Rightarrow>
            if sp = [] then Inr w
            else (let manifest = readManifest h scanTime (vault_of w) sp
                  in (case choice of
                        Discard \<Rightarrow> Inr (onDiscard h sp w)
                      | Recover \<Rightarrow> Inr (onRecover h clickTime sp manifest w)))))"

section \<open>A small vault to run the functions on\<close>

text \<open>
  One interrupted session with two chunks, and an older one beside it. The host lists
  directories in reverse order, never throws, and shows a manifest as a single byte,
  its chunk count.
\<close>

definition wav_manifest :: TempManifest where
  "wav_manifest = \<lparr>mimeType = ''audio/wav'', startedAt = ''2024-01-01T12:00:00.000Z'', chunkCount = 2\<rparr>"

definition demo_host :: "TempManifest option \<Rightarrow> AudioBuffer option \<Rightarrow> bool \<Rightarrow> host" where
  "demo_host manifest decoded fails =
     \<lparr>pluginId = ''whisper'',
      has_rmdir = True,
      throws = (\<lambda>c p. False),
      list_order = rev,
      JSON_parse = (\<lambda>raw. manifest),
      JSON_stringify = (\<lambda>m. [word_of_int (chunkCount m)]),
      toISOString = sessionId,
      decodeAudioData = (\<lambda>ctx raw. decoded),
      process_throws = (\<lambda>blob name. fails)\<rparr>"

definition demo_session :: string where
  "demo_session = ''.obsidian/plugins/whisper/tmp/session-20240101_120000''"

definition demo_vault :: vault where
  "demo_vault =
     \<lparr>files = [(demo_session @ ''/manifest.json'', []),
               (demo_session @ ''/chunk-0000.dat'', [1, 2]),
               (demo_session @ ''/chunk-0001.dat'', [3])],
      folders = [''.obsidian/plugins/whisper/tmp'', demo_session,
                 ''.obsidian/plugins/whisper/tmp/session-20231231_090000'']\<rparr>"

definition demo_world :: world where
  "demo_world =
     \<lparr>vault_of = demo_vault,
      recorder = \<lparr>sessionPath = None, chunkIndex = 0, recordingMimeType = [], sessionFilePath = None\<rparr>,
      contexts = fresh_manager, processed = [], notices = []\<rparr>"

definition click_time :: date where
  "click_time = \<lparr>getFullYear = 2024, getMonth = 0, getDate = 2, getHours = 8, getMinutes = 5, getSeconds = 9\<rparr>"

definition demo_recorder :: TempRecordingManager where
  "demo_recorder = \<lparr>sessionPath = Some demo_session, chunkIndex = 0,
                     recordingMimeType = ''audio/webm'', sessionFilePath = None\<rparr>"

definition started_vault :: vault where
  "started_vault = \<lparr>files = [(demo_session @ ''/manifest.json'', [0])],
                     folders = [''.obsidian/plugins/whisper/tmp'', demo_session]\<rparr>"

definition demo_blobs :: "Blob list" where
  "demo_blobs = [\<lparr>blob_bytes = [1, 2], blob_type = ''audio/webm''\<rparr>,
                 \<lparr>blob_bytes = [3], blob_type = ''audio/webm''\<rparr>]"

definition empty_blob :: Blob where
  "empty_blob = \<lparr>blob_bytes = [], blob_type = ''audio/webm''\<rparr>"

definition first_blob :: Blob where
  "first_blob = \<lparr>blob_bytes = [1, 2], blob_type = ''audio/webm''\<rparr>"

definition scan_time :: date where
  "scan_time = \<lparr>getFullYear = 2024, getMonth = 0, getDate = 2, getHours = 8, getMinutes = 4, getSeconds = 30\<rparr>"

definition older_session :: string where
  "older_session = ''.obsidian/plugins/whisper/tmp/session-20231231_090000''"

lemma demo_perm: "\<forall>xs. mset (list_order (demo_host mf dec fails) xs) = mset xs"
  by (simp add: demo_host_def)

lemma demo_no_throw: "\<not> throws (demo_host mf dec fails) c p"
  by (simp add: demo_host_def)

lemma demo_has_rmdir: "has_rmdir (demo_host mf dec fails)"
  by (simp add: demo_host_def)

section \<open>Appending a fragment\<close>

lemma chunk_path_not_manifest: "chunkPathOf sp i \<noteq> manifestPathOf sp"
  by (simp add: chunkPathOf_def manifestPathOf_def)

lemma try_catch_Inr [simp]: "try_catch (Inr x) handler = Inr x"
  by (simp add: try_catch_def)

lemma try_catch_Inl [simp]: "try_catch (Inl e) handler = handler e"
  by (simp add: try_catch_def)

text \<open>
  Claim C6. \<open>writeIncrementalChunk\<close> returns without touching the vault when there is
  no blob or the blob is empty. Otherwise, once the fragment file is written, the call
  returns normally whatever happens to the manifest: the fragment file is in the vault
  with the bytes of the blob, no file other than the fragment and the manifest is
  changed, and the manifest holds \<open>chunkCount = max(existing, chunkIndex + 1)\<close> if it
  could be read, parsed and rewritten, and is unchanged otherwise.
\<close>

theorem writeIncrementalChunk_durable:
  "writeIncrementalChunk h this v None idx = Inr v
   \<and> (blob_bytes b = [] \<longrightarrow> writeIncrementalChunk h this v (Some b) idx = Inr v)
   \<and> (sessionPath this = Some sp \<and> blob_bytes b \<noteq> []
        \<and> \<not> throws h WriteBinary (chunkPathOf sp idx) \<longrightarrow>
         (\<exists>v'. writeIncrementalChunk h this v (Some b) idx = Inr v'
            \<and> folders v' = folders v
            \<and> map_of (files v') (chunkPathOf sp idx) = Some (blob_bytes b)
            \<and> (\<forall>p. p \<noteq> chunkPathOf sp idx \<and> p \<noteq> manifestPathOf sp \<longrightarrow>
                     map_of (files v') p = map_of (files v) p)
            \<and> (case map_of (files v) (manifestPathOf sp) of
                  None \<Rightarrow> map_of (files v') (manifestPathOf sp) = None
                | Some raw \<Rightarrow>
                    (case JSON_parse h raw of
                       None \<Rightarrow> map_of (files v') (manifestPathOf sp) = Some raw
                     | Some m \<Rightarrow>
                         map_of (files v') (manifestPathOf sp)
                         = Some (if throws h Read (manifestPathOf sp)
                                    \<or> throws h Write (manifestPathOf sp)
                                 then raw
                                 else JSON_stringify h
                                        (m\<lparr>chunkCount := max (chunkCount m) (int idx + 1)\<rparr>))))))"
proof (intro conjI impI)
  show "writeIncrementalChunk h this v None idx = Inr v"
    by (simp add: writeIncrementalChunk_def split: option.splits)
next
  assume "blob_bytes b = []"
  then show "writeIncrementalChunk h this v (Some b) idx = Inr v"
    by (simp add: writeIncrementalChunk_def blob_size_def split: option.splits)
next
  assume a: "sessionPath this = Some sp \<and> blob_bytes b \<noteq> []
             \<and> \<not> throws h WriteBinary (chunkPathOf sp idx)"
  let ?cp = "chunkPathOf sp idx" and ?mp = "manifestPathOf sp"
  define v1 where "v1 = v\<lparr>files := AList.update ?cp (blob_bytes b) (files v)\<rparr>"
  have m1: "map_of (files v1) = (map_of (files v))(?cp \<mapsto> blob_bytes b)"
    by (simp add: v1_def update_conv')
  have w: "writeIncrementalChunk h this v (Some b) idx
           = try_catch (updateManifestCount h v1 sp idx) (\<lambda>e. Inr v1)"
    using a by (simp add: writeIncrementalChunk_def blob_size_def adapter_writeBinary_def v1_def)
  show "\<exists>v'. writeIncrementalChunk h this v (Some b) idx = Inr v'
            \<and> folders v' = folders v
            \<and> map_of (files v') ?cp = Some (blob_bytes b)
            \<and> (\<forall>p. p \<noteq> ?cp \<and> p \<noteq> ?mp \<longrightarrow> map_of (files v') p = map_of (files v) p)
            \<and> (case map_of (files v) ?mp of
                  None \<Rightarrow> map_of (files v') ?mp = None
                | Some raw \<Rightarrow>
                    (case JSON_parse h raw of
                       None \<Rightarrow> map_of (files v') ?mp = Some raw
                     | Some m \<Rightarrow>
                         map_of (files v') ?mp
                         = Some (if throws h Read ?mp \<or> throws h Write ?mp then raw
                                 else JSON_stringify h
                                        (m\<lparr>chunkCount := max (chunkCount m) (int idx + 1)\<rparr>))))"
    unfolding w
    using chunk_path_not_manifest [of sp idx]
    by (auto simp: updateManifestCount_def adapter_read_def adapter_write_def m1 update_conv'
        v1_def Let_def
        split: option.splits)
qed

section \<open>Conversion to WAV on recovery\<close>

lemma balanced_acquisition:
  assumes "0 \<le> refCount m"
  shows "refCount (releaseContext (snd (getContext m))) = refCount m"
  using assms
  by (auto simp: getContext_def releaseContext_def Let_def no_usable_context_def
      split: option.splits)


section \<open>The recovery dialog\<close>

definition session_gone :: "string \<Rightarrow> vault \<Rightarrow> bool" where
  "session_gone sp v =
     (sp \<notin> set (folders v)
      \<and> list_all (\<lambda>p. \<not> inside sp p) (map fst (files v))
      \<and> list_all (\<lambda>p. \<not> inside sp p) (folders v))"

lemma deleteSession_given:
  assumes "sp \<noteq> []"
  shows "deleteSession h this v (Some sp)
         = (this, if has_rmdir h
                  then (case adapter_rmdir_recursive h v sp of Inl e \<Rightarrow> v | Inr v' \<Rightarrow> v')
                  else removeByHand (length (folders v)) h v sp)"
  using assms by (simp add: deleteSession_def Let_def)

lemma rmdir_session_gone:
  assumes "has_rmdir h \<and> \<not> throws h Rmdir sp" and "sp \<noteq> []"
  shows "session_gone sp (snd (deleteSession h this v (Some sp)))"
  using assms
  by (auto simp: deleteSession_given adapter_rmdir_recursive_def session_gone_def list_all_iff)

text \<open>
  Claim C4 (amended). With an abandoned session found: on Discard, \<open>process\<close> is not
  called and the session is deleted. On Recover, if the blob cannot be assembled,
  \<open>process\<close> is not called, the failure is reported and the session stays; otherwise
  \<open>process\<close> is called exactly once, with the assembled blob and a file name made from
  the clock at the time of the click and the extension of the MIME type. If \<open>process\<close>
  returns, the session is then deleted and the recovery is reported; if it throws, the
  failure is reported, nothing is retried, and the session stays in the vault.
  \<open>deleteSession\<close> swallows a failure of \<open>rmdir\<close>, so the session is gone provided
  the adapter has \<open>rmdir\<close> and it does not throw.
\<close>

theorem recovery_act_step:
  assumes "findLatestSessionPath h (vault_of w) = Inr (Some sp)" and "sp \<noteq> []"
  shows "(\<exists>w'. promptAndRecoverIfAny h scanTime Discard clickTime w = Inr w'
            \<and> processed w' = processed w \<and> notices w' = notices w
            \<and> (has_rmdir h \<and> \<not> throws h Rmdir sp \<longrightarrow>
                  session_gone sp (vault_of w')))
         \<and> (\<exists>w'. promptAndRecoverIfAny h scanTime Recover clickTime w = Inr w'
            \<and> (let manifest = readManifest h scanTime (vault_of w) sp;
                     mime = (if mimeType manifest \<noteq> [] then mimeType manifest else ''audio/webm'');
                     fileName = generateTimestampedName clickTime (getExtensionFromMime mime)
                 in (case fst (assembleBlobFromSession h (vault_of w) (contexts w) sp mime) of
                       Inl err \<Rightarrow>
                         processed w' = processed w \<and> vault_of w' = vault_of w
                         \<and> notices w' = notices w @ [RecoveryFailed err]
                     | Inr blob \<Rightarrow>
                         processed w' = processed w @ [(blob, fileName)]
                         \<and> (if process_throws h blob fileName
                             then vault_of w' = vault_of w
                                  \<and> notices w' = notices w @ [RecoveryFailed ProcessError]
                             else notices w' = notices w @ [Recovered]
                                  \<and> (has_rmdir h \<and> \<not> throws h Rmdir sp \<longrightarrow>
                  session_gone sp (vault_of w'))))))"
proof (intro conjI)
  have d: "promptAndRecoverIfAny h scanTime Discard clickTime w = Inr (onDiscard h sp w)"
    using assms by (simp add: promptAndRecoverIfAny_def Let_def)
  have "processed (onDiscard h sp w) = processed w" "notices (onDiscard h sp w) = notices w"
    by (simp_all add: onDiscard_def split_beta)
  moreover have "has_rmdir h \<and> \<not> throws h Rmdir sp \<longrightarrow>
                 session_gone sp (vault_of (onDiscard h sp w))"
    using rmdir_session_gone [OF _ assms(2), of h "recorder w" "vault_of w"]
    by (simp add: onDiscard_def split_beta)
  ultimately show "\<exists>w'. promptAndRecoverIfAny h scanTime Discard clickTime w = Inr w'
            \<and> processed w' = processed w \<and> notices w' = notices w
            \<and> (has_rmdir h \<and> \<not> throws h Rmdir sp \<longrightarrow>
                  session_gone sp (vault_of w'))"
    using d by simp
next
  define manifest where "manifest = readManifest h scanTime (vault_of w) sp"
  define mime where "mime = (if mimeType manifest \<noteq> [] then mimeType manifest else ''audio/webm'')"
  define fileName where "fileName = generateTimestampedName clickTime (getExtensionFromMime mime)"
  define w' where "w' = onRecover h clickTime sp manifest w"
  obtain r m' where a: "assembleBlobFromSession h (vault_of w) (contexts w) sp mime = (r, m')"
    by (cases "assembleBlobFromSession h (vault_of w) (contexts w) sp mime")
  have r: "promptAndRecoverIfAny h scanTime Recover clickTime w = Inr w'"
    using assms by (simp add: promptAndRecoverIfAny_def Let_def w'_def manifest_def)
  have "(case r of
           Inl err \<Rightarrow>
             processed w' = processed w \<and> vault_of w' = vault_of w
             \<and> notices w' = notices w @ [RecoveryFailed err]
         | Inr blob \<Rightarrow>
             processed w' = processed w @ [(blob, fileName)]
             \<and> (if process_throws h blob fileName
                 then vault_of w' = vault_of w
                      \<and> notices w' = notices w @ [RecoveryFailed ProcessError]
                 else notices w' = notices w @ [Recovered]
                      \<and> (has_rmdir h \<and> \<not> throws h Rmdir sp \<longrightarrow>
                  session_gone sp (vault_of w'))))"
  proof (cases r)
    case (Inl err)
    with a show ?thesis
      by (simp add: w'_def onRecover_def Let_def mime_def [symmetric])
  next
    case (Inr blob)
    show ?thesis
    proof (cases "process_throws h blob fileName")
      case True
      with a Inr show ?thesis
        by (simp add: w'_def onRecover_def Let_def mime_def [symmetric] fileName_def [symmetric])
    next
      case False
      have "has_rmdir h \<and> \<not> throws h Rmdir sp \<longrightarrow>
            session_gone sp (snd (deleteSession h (recorder w) (vault_of w) (Some sp)))"
        using rmdir_session_gone [OF _ assms(2)] by simp
      with a Inr False show ?thesis
        by (simp add: w'_def onRecover_def Let_def mime_def [symmetric] fileName_def [symmetric]
            split_beta)
    qed
  qed
  then have main: "(case fst (assembleBlobFromSession h (vault_of w) (contexts w) sp mime) of
           Inl err \<Rightarrow>
             processed w' = processed w \<and> vault_of w' = vault_of w
             \<and> notices w' = notices w @ [RecoveryFailed err]
         | Inr blob \<Rightarrow>
             processed w' = processed w @ [(blob, fileName)]
             \<and> (if process_throws h blob fileName
                 then vault_of w' = vault_of w
                      \<and> notices w' = notices w @ [RecoveryFailed ProcessError]
                 else notices w' = notices w @ [Recovered]
                      \<and> (has_rmdir h \<and> \<not> throws h Rmdir sp \<longrightarrow>
                  session_gone sp (vault_of w'))))"
    by (simp only: a fst_conv)
  show "\<exists>w'. promptAndRecoverIfAny h scanTime Recover clickTime w = Inr w'
            \<and> (let manifest = readManifest h scanTime (vault_of w) sp;
                     mime = (if mimeType manifest \<noteq> [] then mimeType manifest else ''audio/webm'');
                     fileName = generateTimestampedName clickTime (getExtensionFromMime mime)
                 in (case fst (assembleBlobFromSession h (vault_of w) (contexts w) sp mime) of
                       Inl err \<Rightarrow>
                         processed w' = processed w \<and> vault_of w' = vault_of w
                         \<and> notices w' = notices w @ [RecoveryFailed err]
                     | Inr blob \<Rightarrow>
                         processed w' = processed w @ [(blob, fileName)]
                         \<and> (if process_throws h blob fileName
                             then vault_of w' = vault_of w
                                  \<and> notices w' = notices w @ [RecoveryFailed ProcessError]
                             else notices w' = notices w @ [Recovered]
                                  \<and> (has_rmdir h \<and> \<not> throws h Rmdir sp \<longrightarrow>
                  session_gone sp (vault_of w')))))"
    unfolding Let_def manifest_def [symmetric] mime_def [symmetric] fileName_def [symmetric]
    using r main by blast
qed

section \<open>Finding the latest session\<close>

subsection \<open>Paths\<close>

lemma child_ofD:
  assumes "child_of dir p"
  obtains name where "p = dir @ ''/'' @ name" and "name \<noteq> []" and "CHR ''/'' \<notin> set name"
proof -
  from assms obtain zs where p: "p = (dir @ ''/'') @ zs"
    by (auto simp: child_of_def inside_def prefix_def)
  then have "drop (length dir + 1) p = zs" by simp
  with assms p show ?thesis
    by (intro that [of zs]) (auto simp: child_of_def Let_def)
qed

lemma child_ofI: "name \<noteq> [] \<Longrightarrow> CHR ''/'' \<notin> set name \<Longrightarrow> child_of dir (dir @ ''/'' @ name)"
  by (simp add: child_of_def inside_def)

lemma name_before_slash:
  assumes "CHR ''/'' \<notin> set a" and "CHR ''/'' \<notin> set b" and "a @ CHR ''/'' # r1 = b @ CHR ''/'' # r2"
  shows "a = b"
proof -
  have "takeWhile (\<lambda>c. c \<noteq> CHR ''/'') (a @ CHR ''/'' # r1) = a"
    using assms(1) by (subst takeWhile_append2) auto
  moreover have "takeWhile (\<lambda>c. c \<noteq> CHR ''/'') (b @ CHR ''/'' # r2) = b"
    using assms(2) by (subst takeWhile_append2) auto
  ultimately show ?thesis using assms(3) by simp
qed

lemma siblings_apart:
  assumes "child_of dir s" and "child_of dir sp" and "s \<noteq> sp"
  shows "\<not> inside sp s" and "inside s p \<Longrightarrow> \<not> inside sp p"
proof -
  from assms(1) obtain ns where s: "s = dir @ ''/'' @ ns" "CHR ''/'' \<notin> set ns"
    by (rule child_ofD)
  from assms(2) obtain np where sp: "sp = dir @ ''/'' @ np" "CHR ''/'' \<notin> set np"
    by (rule child_ofD)
  show "\<not> inside sp s"
  proof
    assume "inside sp s"
    then obtain r where "ns = np @ CHR ''/'' # r"
      by (auto simp: inside_def prefix_def s sp)
    with s(2) show False by simp
  qed
  show "\<not> inside sp p" if "inside s p"
  proof
    assume "inside sp p"
    then obtain r2 where p2: "p = dir @ ''/'' @ np @ CHR ''/'' # r2"
      by (auto simp: inside_def prefix_def sp)
    from that obtain r1 where p1: "p = dir @ ''/'' @ ns @ CHR ''/'' # r1"
      by (auto simp: inside_def prefix_def s)
    from p1 p2 have "ns @ CHR ''/'' # r1 = np @ CHR ''/'' # r2" by simp
    from name_before_slash [OF s(2) sp(2) this] assms(3) s sp show False by simp
  qed
qed

subsection \<open>Listing and sorting\<close>

lemma hd_rev_sort_Max:
  fixes xs :: "'a::linorder list"
  assumes "xs \<noteq> []"
  shows "hd (rev (sort xs)) = Max (set xs)"
proof -
  from assms have ne: "sort xs \<noteq> []"
    by (metis length_0_conv length_sort)
  then have "hd (rev (sort xs)) = last (sort xs)"
    by (simp add: hd_rev)
  also have "\<dots> = Max (set xs)"
  proof (rule Max_eqI [symmetric])
    show "finite (set xs)" by simp
    show "last (sort xs) \<in> set xs"
      using last_in_set [OF ne] by simp
    fix y assume "y \<in> set xs"
    then obtain i where i: "i < length (sort xs)" "sort xs ! i = y"
      by (metis in_set_conv_nth set_sort)
    then have "sort xs ! i \<le> sort xs ! (length (sort xs) - 1)"
      by (intro sorted_nth_mono) (use i in auto)
    with i ne show "y \<le> last (sort xs)"
      by (simp add: last_conv_nth)
  qed
  finally show ?thesis .
qed

lemma sort_filter_listed:
  assumes "mset (list_order h xs) = mset xs"
  shows "sort (filter P (list_order h xs)) = sort (filter P xs)"
proof -
  from assms have "mset (filter P (list_order h xs)) = mset (filter P xs)"
    by (simp only: mset_filter)
  then show ?thesis
    by (intro properties_for_sort) simp_all
qed

lemma findLatestSessionPath_Max:
  assumes perm: "\<forall>xs. mset (list_order h xs) = mset xs"
    and ok: "\<not> throws h Exists (getTmpRootPath h)" "\<not> throws h List (getTmpRootPath h)"
    and root: "getTmpRootPath h \<in> set (folders v)"
    and sessions: "sessions = filter (\<lambda>f. string_includes f ''/session-'')
                                (filter (child_of (getTmpRootPath h)) (folders v))"
    and ne: "sessions \<noteq> []"
  shows "findLatestSessionPath h v = Inr (Some (Max (set sessions)))"
proof -
  let ?listed = "filter (\<lambda>f. string_includes f ''/session-'')
                   (list_order h (filter (child_of (getTmpRootPath h)) (folders v)))"
  have s: "sort ?listed = sort sessions"
    unfolding sessions using perm by (intro sort_filter_listed) simp
  then have "length ?listed = length sessions"
    by (metis length_sort)
  with ne have ne': "?listed \<noteq> []" by auto
  from ok root ne' have "findLatestSessionPath h v = Inr (Some (hd (rev (sort ?listed))))"
    by (simp add: findLatestSessionPath_def adapter_exists_def adapter_list_def Let_def)
  with s hd_rev_sort_Max [OF ne] show ?thesis by simp
qed

subsection \<open>Session ids order like their times\<close>

definition valid_date :: "date \<Rightarrow> bool" where
  "valid_date d =
     (1000 \<le> getFullYear d \<and> getFullYear d < 10000 \<and> getMonth d < 12
      \<and> 1 \<le> getDate d \<and> getDate d \<le> 31
      \<and> getHours d < 24 \<and> getMinutes d < 60 \<and> getSeconds d < 60)"

definition earlier :: "date \<Rightarrow> date \<Rightarrow> bool" where
  "earlier a b =
     (getFullYear a < getFullYear b
      \<or> getFullYear a = getFullYear b
        \<and> (getMonth a < getMonth b
           \<or> getMonth a = getMonth b
             \<and> (getDate a < getDate b
                \<or> getDate a = getDate b
                  \<and> (getHours a < getHours b
                     \<or> getHours a = getHours b
                       \<and> (getMinutes a < getMinutes b
                          \<or> getMinutes a = getMinutes b \<and> getSeconds a < getSeconds b)))))"

lemma length_string_of_nat: "10 ^ k \<le> n \<Longrightarrow> k < length (string_of_nat n)"
proof (induction n arbitrary: k rule: string_of_nat.induct)
  case (1 n)
  show ?case
  proof (cases "n < 10")
    case True
    have "k = 0"
    proof (rule ccontr)
      assume "k \<noteq> 0"
      then have "(10::nat) ^ 1 \<le> 10 ^ k"
        by (intro power_increasing) auto
      with "1.prems" True show False by simp
    qed
    with True show ?thesis by (simp add: string_of_nat.simps [of n])
  next
    case False
    show ?thesis
    proof (cases k)
      case 0
      with False show ?thesis by (simp add: string_of_nat.simps [of n])
    next
      case (Suc j)
      with "1.prems" have "10 ^ j \<le> n div 10" by simp
      from "1.IH" [OF False this] False show ?thesis
        by (simp add: Suc string_of_nat.simps [of n])
    qed
  qed
qed

lemma year_fixed_width:
  assumes "1000 \<le> n" and "n < 10000"
  shows "string_of_nat n = fixed_width 4 n"
proof -
  from assms(1) have "3 < length (string_of_nat n)"
    using length_string_of_nat [of 3 n] by simp
  then have "padStart (string_of_nat n) 4 (CHR ''0'') = string_of_nat n"
    by (simp add: padStart_def)
  moreover from assms(2) have "padStart (string_of_nat n) 4 (CHR ''0'') = fixed_width 4 n"
    by (intro padStart_string_of_nat) simp_all
  ultimately show ?thesis by simp
qed

lemma pad2_fixed_width: "n < 100 \<Longrightarrow> pad2 n = fixed_width 2 n"
  unfolding pad2_def by (intro padStart_string_of_nat) simp_all

lemma append_less_append:
  fixes a b :: "'a::linorder list"
  shows "length a = length b \<Longrightarrow> a @ x < b @ y \<longleftrightarrow> a < b \<or> a = b \<and> x < y"
  by (induction a b rule: list_induct2) auto

lemma sessionId_fixed:
  assumes "valid_date d"
  shows "sessionId d
         = fixed_width 4 (getFullYear d) @ fixed_width 2 (getMonth d + 1) @ fixed_width 2 (getDate d)
           @ ''_'' @ fixed_width 2 (getHours d) @ fixed_width 2 (getMinutes d)
           @ fixed_width 2 (getSeconds d)"
  using assms
  by (simp add: sessionId_def valid_date_def year_fixed_width pad2_fixed_width)

lemma sessionId_less:
  assumes "valid_date a" and "valid_date b"
  shows "sessionId a < sessionId b \<longleftrightarrow> earlier a b"
proof -
  have f4: "fixed_width 4 (getFullYear a) < fixed_width 4 (getFullYear b)
            \<longleftrightarrow> getFullYear a < getFullYear b"
    "fixed_width 4 (getFullYear a) = fixed_width 4 (getFullYear b)
            \<longleftrightarrow> getFullYear a = getFullYear b"
    using assms by (simp_all add: valid_date_def fixed_width_less fixed_width_eq)
  have f2: "\<And>x y. x < 100 \<Longrightarrow> y < 100 \<Longrightarrow>
              (fixed_width 2 x < fixed_width 2 y \<longleftrightarrow> x < y)
              \<and> (fixed_width 2 x = fixed_width 2 y \<longleftrightarrow> x = y)"
    by (simp add: fixed_width_less fixed_width_eq)
  from assms have r: "getMonth a + 1 < 100" "getMonth b + 1 < 100" "getDate a < 100"
    "getDate b < 100" "getHours a < 100" "getHours b < 100" "getMinutes a < 100"
    "getMinutes b < 100" "getSeconds a < 100" "getSeconds b < 100"
    by (simp_all add: valid_date_def)
  show ?thesis
    unfolding sessionId_fixed [OF assms(1)] sessionId_fixed [OF assms(2)] earlier_def
    using f2 [OF r(1,2)] f2 [OF r(3,4)] f2 [OF r(5,6)] f2 [OF r(7,8)] f2 [OF r(9,10)]
    by (simp add: append_less_append f4 del: fixed_width.simps)
qed

lemma newSessionPath_less:
  assumes "valid_date a" and "valid_date b"
  shows "newSessionPath h a < newSessionPath h b \<longleftrightarrow> earlier a b"
  using sessionId_less [OF assms]
  by (simp add: newSessionPath_def append_less_append)

section \<open>Fragments come back in the order of their indices\<close>

subsection \<open>Chunk paths\<close>

lemma chunkPathOf_fixed:
  "i < 10000 \<Longrightarrow> chunkPathOf sp i = sp @ ''/chunk-'' @ fixed_width 4 i @ ''.dat''"
  using padStart_string_of_nat [of 4 i] by (simp add: chunkPathOf_def)

lemma chunkPathOf_less:
  assumes "i < 10000" and "j < 10000"
  shows "chunkPathOf sp i < chunkPathOf sp j \<longleftrightarrow> i < j"
proof -
  have "fixed_width 4 i @ ''.dat'' < fixed_width 4 j @ ''.dat''
        \<longleftrightarrow> fixed_width 4 i < fixed_width 4 j"
    by (subst append_less_append) simp_all
  with assms show ?thesis
    by (simp add: chunkPathOf_fixed append_less_append fixed_width_less del: fixed_width.simps)
qed

lemma chunkPathOf_eq:
  assumes "i < 10000" and "j < 10000"
  shows "chunkPathOf sp i = chunkPathOf sp j \<longleftrightarrow> i = j"
  using chunkPathOf_less [OF assms] chunkPathOf_less [OF assms(2,1)]
  by (metis less_irrefl linorder_neqE_nat)

lemma digit_char_not_slash: "d < 10 \<Longrightarrow> digit_char d \<noteq> CHR ''/''"
proof
  assume "d < 10" "digit_char d = CHR ''/''"
  then have "of_char (digit_char d) = (of_char (CHR ''/'') :: nat)" by simp
  with \<open>d < 10\<close> show False by (simp add: of_char_digit_char)
qed

lemma fixed_width_no_slash: "CHR ''/'' \<notin> set (fixed_width k n)"
proof (induction k arbitrary: n)
  case 0
  then show ?case by simp
next
  case (Suc k)
  have "n mod 10 < 10" by simp
  from digit_char_not_slash [OF this] Suc show ?case by auto
qed

lemma chunk_is_child: "i < 10000 \<Longrightarrow> child_of sp (chunkPathOf sp i)"
proof -
  assume i: "i < 10000"
  have "child_of sp (sp @ ''/'' @ (''chunk-'' @ fixed_width 4 i @ ''.dat''))"
    by (rule child_ofI) (simp_all add: fixed_width_no_slash del: fixed_width.simps)
  with i show ?thesis by (simp add: chunkPathOf_fixed del: fixed_width.simps)
qed

lemma chunk_includes: "string_includes (chunkPathOf sp i) ''/chunk-''"
proof -
  have "sublist ''/chunk-'' (sp @ ''/chunk-'' @ (padStart (string_of_nat i) 4 (CHR ''0'') @ ''.dat''))"
    by (rule sublist_appendI)
  then show ?thesis by (simp add: string_includes_def chunkPathOf_def)
qed

lemma sorted_chunk_paths:
  assumes "n \<le> 10000"
  shows "sorted (map (chunkPathOf sp) [0..<n])"
proof (subst sorted_iff_nth_mono, intro allI impI)
  fix i j assume "i \<le> j" "j < length (map (chunkPathOf sp) [0..<n])"
  with assms have "i < 10000" "j < 10000" "i \<le> j" "j < n" by simp_all
  then show "map (chunkPathOf sp) [0..<n] ! i \<le> map (chunkPathOf sp) [0..<n] ! j"
    using chunkPathOf_less [of i j sp] by (cases "i = j") auto
qed

subsection \<open>A recording session: fragments appended with indices 0, 1, 2, ...\<close>

text \<open>
  The recorder appends the fragments of a session one after the other, the first with
  index \<open>i\<close>, the next with \<open>i + 1\<close>, and so on.
\<close>

fun appendAll ::
  "host \<Rightarrow> TempRecordingManager \<Rightarrow> vault \<Rightarrow> nat \<Rightarrow> Blob list \<Rightarrow> js_error + vault" where
  "appendAll h this v i [] = Inr v"
| "appendAll h this v i (b # bs) =
     and_then (writeIncrementalChunk h this v (Some b) i) (\<lambda>v. appendAll h this v (Suc i) bs)"

lemma writeIncrementalChunk_files:
  assumes "sessionPath this = Some sp" and "blob_bytes b \<noteq> []"
    and "\<not> throws h WriteBinary (chunkPathOf sp i)"
  obtains v' where "writeIncrementalChunk h this v (Some b) i = Inr v'"
    and "folders v' = folders v"
    and "set (map fst (files v')) = insert (chunkPathOf sp i) (set (map fst (files v)))"
    and "distinct (map fst (files v)) \<Longrightarrow> distinct (map fst (files v'))"
    and "map_of (files v') (chunkPathOf sp i) = Some (blob_bytes b)"
    and "\<And>p. p \<noteq> chunkPathOf sp i \<Longrightarrow> p \<noteq> manifestPathOf sp \<Longrightarrow>
             map_of (files v') p = map_of (files v) p"
proof -
  let ?cp = "chunkPathOf sp i" and ?mp = "manifestPathOf sp"
  define v1 where "v1 = v\<lparr>files := AList.update ?cp (blob_bytes b) (files v)\<rparr>"
  have w: "writeIncrementalChunk h this v (Some b) i
           = try_catch (updateManifestCount h v1 sp i) (\<lambda>e. Inr v1)"
    using assms by (simp add: writeIncrementalChunk_def blob_size_def adapter_writeBinary_def v1_def)
  have k1: "set (map fst (files v1)) = insert ?cp (set (map fst (files v)))"
    by (auto simp: v1_def update_keys)
  have d1: "distinct (map fst (files v)) \<Longrightarrow> distinct (map fst (files v1))"
    by (simp add: v1_def distinct_update)
  have m1: "map_of (files v1) = (map_of (files v))(?cp \<mapsto> blob_bytes b)"
    by (simp add: v1_def update_conv')
  show ?thesis
  proof (cases "updateManifestCount h v1 sp i")
    case (Inl e)
    with w have "writeIncrementalChunk h this v (Some b) i = Inr v1" by simp
    then show ?thesis
      using k1 d1 m1 by (intro that [of v1]) (simp_all add: v1_def)
  next
    case (Inr v2)
    then obtain raw d where read: "map_of (files v1) ?mp = Some raw"
      and v2: "v2 = v1\<lparr>files := AList.update ?mp d (files v1)\<rparr>"
      by (auto simp: updateManifestCount_def adapter_read_def adapter_write_def Let_def and_then_def
          split: if_splits option.splits sum.splits)
    from read have "?mp \<in> set (map fst (files v1))"
      by (metis map_of_eq_None_iff option.distinct(1) set_map)
    then have k2: "set (map fst (files v2)) = set (map fst (files v1))"
      by (auto simp: v2 update_keys)
    have d2: "distinct (map fst (files v1)) \<Longrightarrow> distinct (map fst (files v2))"
      by (simp add: v2 distinct_update)
    have m2: "map_of (files v2) = (map_of (files v1))(?mp \<mapsto> d)"
      by (simp add: v2 update_conv')
    from w Inr have "writeIncrementalChunk h this v (Some b) i = Inr v2" by simp
    then show ?thesis
      using k1 k2 d1 d2 m1 m2 chunk_path_not_manifest [of sp i]
      by (intro that [of v2]) (simp_all add: v2 v1_def)
  qed
qed

lemma appendAll_files:
  assumes sp: "sessionPath this = Some sp"
    and "\<forall>b \<in> set bs. blob_bytes b \<noteq> []"
    and "i0 + length bs \<le> 10000"
    and "\<forall>j < length bs. \<not> throws h WriteBinary (chunkPathOf sp (i0 + j))"
  shows "\<exists>v'. appendAll h this v i0 bs = Inr v'
           \<and> folders v' = folders v
           \<and> set (map fst (files v'))
               = set (map fst (files v)) \<union> chunkPathOf sp ` {i0..<i0 + length bs}
           \<and> (distinct (map fst (files v)) \<longrightarrow> distinct (map fst (files v')))
           \<and> (\<forall>j < length bs. map_of (files v') (chunkPathOf sp (i0 + j)) = Some (blob_bytes (bs ! j)))
           \<and> (\<forall>p. p \<notin> chunkPathOf sp ` {i0..<i0 + length bs} \<and> p \<noteq> manifestPathOf sp \<longrightarrow>
                    map_of (files v') p = map_of (files v) p)"
  using assms(2-)
proof (induction bs arbitrary: v i0)
  case Nil
  then show ?case by simp
next
  case (Cons b bs)
  from Cons.prems have b: "blob_bytes b \<noteq> []" and w0: "\<not> throws h WriteBinary (chunkPathOf sp i0)"
    by auto
  from writeIncrementalChunk_files [OF sp b w0, of v]
  obtain v1 where v1: "writeIncrementalChunk h this v (Some b) i0 = Inr v1"
    "folders v1 = folders v"
    "set (map fst (files v1)) = insert (chunkPathOf sp i0) (set (map fst (files v)))"
    "distinct (map fst (files v)) \<Longrightarrow> distinct (map fst (files v1))"
    "map_of (files v1) (chunkPathOf sp i0) = Some (blob_bytes b)"
    "\<And>p. p \<noteq> chunkPathOf sp i0 \<Longrightarrow> p \<noteq> manifestPathOf sp \<Longrightarrow>
          map_of (files v1) p = map_of (files v) p"
    by blast
  from Cons.prems have p: "\<forall>b \<in> set bs. blob_bytes b \<noteq> []" "Suc i0 + length bs \<le> 10000"
    "\<forall>j < length bs. \<not> throws h WriteBinary (chunkPathOf sp (Suc i0 + j))"
    by auto
  from Cons.IH [OF p, of v1] obtain v' where v':
    "appendAll h this v1 (Suc i0) bs = Inr v'"
    "folders v' = folders v1"
    "set (map fst (files v')) = set (map fst (files v1)) \<union> chunkPathOf sp ` {Suc i0..<Suc i0 + length bs}"
    "distinct (map fst (files v1)) \<longrightarrow> distinct (map fst (files v'))"
    "\<forall>j < length bs. map_of (files v') (chunkPathOf sp (Suc i0 + j)) = Some (blob_bytes (bs ! j))"
    "\<forall>p. p \<notin> chunkPathOf sp ` {Suc i0..<Suc i0 + length bs} \<and> p \<noteq> manifestPathOf sp \<longrightarrow>
         map_of (files v') p = map_of (files v1) p"
    by blast
  have range: "{i0..<i0 + length (b # bs)} = insert i0 {Suc i0..<Suc i0 + length bs}"
    by auto
  have notin: "chunkPathOf sp i0 \<notin> chunkPathOf sp ` {Suc i0..<Suc i0 + length bs}"
  proof
    assume "chunkPathOf sp i0 \<in> chunkPathOf sp ` {Suc i0..<Suc i0 + length bs}"
    then obtain j where j: "Suc i0 \<le> j" "j < Suc i0 + length bs" "chunkPathOf sp i0 = chunkPathOf sp j"
      by auto
    with p(2) have "i0 < 10000" "j < 10000" by simp_all
    from chunkPathOf_eq [OF this] j show False by simp
  qed
  have head: "map_of (files v') (chunkPathOf sp i0) = Some (blob_bytes b)"
    using v'(6) notin chunk_path_not_manifest [of sp i0] v1(5) by simp
  have nth: "\<forall>j < length (b # bs). map_of (files v') (chunkPathOf sp (i0 + j))
                                       = Some (blob_bytes ((b # bs) ! j))"
  proof (intro allI impI)
    fix j assume "j < length (b # bs)"
    then show "map_of (files v') (chunkPathOf sp (i0 + j)) = Some (blob_bytes ((b # bs) ! j))"
      using head v'(5) by (cases j) auto
  qed
  have other: "\<forall>p. p \<notin> chunkPathOf sp ` {i0..<i0 + length (b # bs)} \<and> p \<noteq> manifestPathOf sp \<longrightarrow>
                   map_of (files v') p = map_of (files v) p"
    unfolding range using v'(6) v1(6) by auto
  have keys: "set (map fst (files v'))
              = set (map fst (files v)) \<union> chunkPathOf sp ` {i0..<i0 + length (b # bs)}"
    unfolding range using v'(3) v1(3) by auto
  from v1(1) v'(1) have "appendAll h this v i0 (b # bs) = Inr v'" by simp
  with v1(2,4) v'(2,4) keys nth other show ?case
    by (intro exI [of _ v']) simp
qed

lemma readChunks_all:
  assumes "\<forall>p \<in> set ps. \<not> throws h ReadBinary p \<and> map_of (files v) p = Some (content p)"
  shows "for_each ps
           (\<lambda>chunkFile parts. and_then (adapter_readBinary h v chunkFile) (\<lambda>data. Inr (parts @ [data])))
           acc
         = Inr (acc @ map content ps)"
  using assms
  by (induction ps arbitrary: acc) (simp_all add: adapter_readBinary_def)

text \<open>
  Claim C1. In a session that has no chunk file yet, let \<open>N \<le> 10000\<close> non-empty
  fragments be appended with the indices \<open>0, \<dots>, N - 1\<close> (the indices that four
  digits hold), the writes and reads of the fragment files and the listing of the
  session folder not failing. Then, in whatever order the host lists the folder, the
  sorted chunk files are the \<open>N\<close> fragment files in the order of appending, reading
  them gives the fragments in that order, and the blob assembled before any conversion
  (the MIME type being \<open>audio/wav\<close>) is the concatenation of their bytes.
\<close>

theorem fragments_reassemble_in_order:
  assumes sp: "sessionPath this = Some sp"
    and nonempty: "\<forall>b \<in> set blobs. blob_bytes b \<noteq> []"
    and bound: "length blobs \<le> 10000"
    and perm: "\<forall>xs. mset (list_order h xs) = mset xs"
    and ok: "\<forall>i < length blobs. \<not> throws h WriteBinary (chunkPathOf sp i)
                                 \<and> \<not> throws h ReadBinary (chunkPathOf sp i)"
    and list_ok: "\<not> throws h List sp"
    and dir: "sp \<in> set (folders v)"
    and dist: "distinct (map fst (files v))"
    and fresh: "\<forall>p \<in> set (map fst (files v)). child_of sp p \<longrightarrow> \<not> string_includes p ''/chunk-''"
  shows "\<exists>v'. appendAll h this v 0 blobs = Inr v'
           \<and> listChunks h v' sp = Inr (map (chunkPathOf sp) [0..<length blobs])
           \<and> readChunks h v' (map (chunkPathOf sp) [0..<length blobs]) = Inr (map blob_bytes blobs)
           \<and> (blobs \<noteq> [] \<longrightarrow>
                 assembleBlobFromSession h v' m sp ''audio/wav''
                 = (Inr \<lparr>blob_bytes = concat (map blob_bytes blobs), blob_type = ''audio/wav''\<rparr>, m))"
proof -
  let ?n = "length blobs"
  let ?paths = "map (chunkPathOf sp) [0..<?n]"
  let ?inc = "\<lambda>f. string_includes f ''/chunk-''"
  from ok have wr: "\<forall>j < ?n. \<not> throws h WriteBinary (chunkPathOf sp (0 + j))" by simp
  from bound have b0: "0 + ?n \<le> 10000" by simp
  from appendAll_files [OF sp nonempty b0 wr, of v] obtain v' where v':
    "appendAll h this v 0 blobs = Inr v'"
    "folders v' = folders v"
    "set (map fst (files v')) = set (map fst (files v)) \<union> chunkPathOf sp ` {0..<?n}"
    "distinct (map fst (files v'))"
    "\<forall>j < ?n. map_of (files v') (chunkPathOf sp j) = Some (blob_bytes (blobs ! j))"
    using dist by auto
  let ?keys = "map fst (files v')"
  have set_eq: "set (filter ?inc (filter (child_of sp) ?keys)) = set ?paths"
  proof (intro set_eqI iffI)
    fix p assume "p \<in> set (filter ?inc (filter (child_of sp) ?keys))"
    then have "p \<in> set ?keys" "child_of sp p" "?inc p" by simp_all
    with v'(3) fresh show "p \<in> set ?paths" by auto
  next
    fix p assume "p \<in> set ?paths"
    then obtain i where i: "i < ?n" "p = chunkPathOf sp i" by auto
    with bound have "i < 10000" by simp
    with i v'(3) show "p \<in> set (filter ?inc (filter (child_of sp) ?keys))"
      by (auto simp: chunk_is_child chunk_includes)
  qed
  have "inj_on (chunkPathOf sp) (set [0..<?n])"
  proof (rule inj_onI)
    fix i j assume "i \<in> set [0..<?n]" "j \<in> set [0..<?n]" "chunkPathOf sp i = chunkPathOf sp j"
    with bound show "i = j" using chunkPathOf_eq [of i j sp] by simp
  qed
  then have dp: "distinct ?paths" by (simp add: distinct_map)
  from v'(4) have df: "distinct (filter ?inc (filter (child_of sp) ?keys))" by simp
  have ms: "mset ?paths = mset (filter ?inc (filter (child_of sp) ?keys))"
    using set_eq_iff_mset_eq_distinct [OF dp df] set_eq by blast
  have "sort (filter ?inc (list_order h (filter (child_of sp) ?keys)))
        = sort (filter ?inc (filter (child_of sp) ?keys))"
    using perm by (intro sort_filter_listed) simp
  also have "\<dots> = ?paths"
    using ms sorted_chunk_paths [OF bound] by (intro properties_for_sort) simp_all
  finally have listed: "listChunks h v' sp = Inr ?paths"
    using list_ok dir v'(2) by (simp add: listChunks_def adapter_list_def)
  let ?content = "\<lambda>p. the (map_of (files v') p)"
  have "\<forall>p \<in> set ?paths. \<not> throws h ReadBinary p \<and> map_of (files v') p = Some (?content p)"
    using ok v'(5) by auto
  from readChunks_all [OF this, of "[]"]
  have "readChunks h v' ?paths = Inr (map ?content ?paths)"
    by (simp add: readChunks_def)
  moreover have "map ?content ?paths = map blob_bytes blobs"
    using v'(5) by (intro nth_equalityI) simp_all
  ultimately have rd: "readChunks h v' ?paths = Inr (map blob_bytes blobs)" by simp
  have asm: "blobs \<noteq> [] \<longrightarrow>
             assembleBlobFromSession h v' m sp ''audio/wav''
             = (Inr \<lparr>blob_bytes = concat (map blob_bytes blobs), blob_type = ''audio/wav''\<rparr>, m)"
    using listed rd by (simp add: assembleBlobFromSession_def Let_def)
  from v'(1) listed rd asm show ?thesis by blast
qed

subsection \<open>What recovery leaves alone\<close>

lemma map_of_filter_outside:
  "\<not> Q p \<Longrightarrow> map_of (filter (\<lambda>(q, d). \<not> Q q) fs) p = map_of fs p"
  by (induction fs) auto

definition same_at :: "string \<Rightarrow> vault \<Rightarrow> vault \<Rightarrow> bool" where
  "same_at p v v' =
     (map_of (files v') p = map_of (files v) p \<and> (p \<in> set (folders v') \<longleftrightarrow> p \<in> set (folders v)))"

lemma same_at_refl [simp]: "same_at p v v"
  by (simp add: same_at_def)

lemma same_at_trans: "same_at p v v1 \<Longrightarrow> same_at p v1 v2 \<Longrightarrow> same_at p v v2"
  by (simp add: same_at_def)

lemma map_of_filter_other:
  "p \<noteq> q \<Longrightarrow> map_of (filter (\<lambda>(k, d). k \<noteq> q) fs) p = map_of fs p"
  by (induction fs) auto

lemma adapter_remove_other:
  assumes "adapter_remove h v q = Inr v'" and "p \<noteq> q"
  shows "same_at p v v'"
  using assms
  by (auto simp: adapter_remove_def same_at_def map_of_filter_other split: if_splits)

lemma removeEach_other: "p \<notin> set fs \<Longrightarrow> same_at p v (fst (removeEach h fs v))"
proof (induction fs arbitrary: v)
  case Nil
  then show ?case by simp
next
  case (Cons f fs)
  show ?case
  proof (cases "adapter_remove h v f")
    case (Inl e)
    then show ?thesis by simp
  next
    case (Inr v1)
    from Cons.prems have "p \<noteq> f" "p \<notin> set fs" by auto
    from adapter_remove_other [OF Inr this(1)] Cons.IH [OF this(2), of v1] Inr
    show ?thesis by (auto intro: same_at_trans)
  qed
qed

lemma inside_child: "child_of target d \<Longrightarrow> inside target d"
  by (simp add: child_of_def)

lemma inside_trans: "child_of target d \<Longrightarrow> inside d p \<Longrightarrow> inside target p"
proof -
  assume "child_of target d" and "inside d p"
  then obtain name r where "d = target @ ''/'' @ name" "p = (d @ ''/'') @ r"
    by (auto elim!: child_ofD simp: inside_def prefix_def)
  then have "p = (target @ ''/'') @ (name @ ''/'' @ r)" by simp
  then show "inside target p"
    unfolding inside_def by (metis prefixI)
qed

lemma removeByHand_other:
  assumes perm: "\<forall>xs. mset (list_order h xs) = mset xs"
    and "p \<noteq> target" and "\<not> inside target p"
  shows "same_at p v (removeByHand depth h v target)"
  using assms(2,3)
proof (induction depth arbitrary: v target)
  case 0
  then show ?case by simp
next
  case (Suc depth)
  show ?case
  proof (cases "adapter_list h v target")
    case (Inl e)
    then show ?thesis by simp
  next
    case (Inr listing)
    from perm have sets: "\<And>xs. set (list_order h xs) = set xs"
      by (metis mset_eq_setD)
    from Inr have lf: "set (listed_files listing) \<subseteq> {q. child_of target q}"
      and ld: "set (listed_folders listing) \<subseteq> {q. child_of target q}"
      by (auto simp: adapter_list_def sets split: if_splits)
    obtain v1 removed where r: "removeEach h (listed_files listing) v = (v1, removed)"
      by (cases "removeEach h (listed_files listing) v")
    from lf Suc.prems(2) have "p \<notin> set (listed_files listing)"
      by (auto dest: inside_child)
    from removeEach_other [OF this, of v h] r have s1: "same_at p v v1" by simp
    have folded: "same_at p v1 (fold (\<lambda>d v. removeByHand depth h v d) ds v1)"
      if "set ds \<subseteq> {q. child_of target q}" for ds
      using that
    proof (induction ds arbitrary: v1)
      case Nil
      then show ?case by simp
    next
      case (Cons d ds)
      then have d: "child_of target d" by simp
      with Suc.prems have "p \<noteq> d" "\<not> inside d p"
        by (auto dest: inside_child inside_trans)
      from Suc.IH [OF this] have "same_at p v1 (removeByHand depth h v1 d)" .
      moreover from Cons have
        "same_at p (removeByHand depth h v1 d)
           (fold (\<lambda>d v. removeByHand depth h v d) ds (removeByHand depth h v1 d))"
        by simp
      ultimately show ?case by (auto intro: same_at_trans)
    qed
    let ?v2 = "fold (\<lambda>d v. removeByHand depth h v d) (listed_folders listing) v1"
    from s1 folded [OF ld] have s2: "same_at p v ?v2" by (rule same_at_trans)
    have "same_at p v (case adapter_remove h ?v2 target of Inl e \<Rightarrow> ?v2 | Inr v' \<Rightarrow> v')"
    proof (cases "adapter_remove h ?v2 target")
      case (Inl e)
      with s2 show ?thesis by simp
    next
      case (Inr v3)
      from adapter_remove_other [OF Inr Suc.prems(1)] s2 Inr show ?thesis
        by (auto intro: same_at_trans)
    qed
    with Inr r s1 show ?thesis
      by (simp add: Let_def)
  qed
qed

lemma deleteSession_outside:
  assumes "sp \<noteq> []" and "\<forall>xs. mset (list_order h xs) = mset xs"
    and "p \<noteq> sp" and "\<not> inside sp p"
  shows "same_at p v (snd (deleteSession h this v (Some sp)))"
proof (cases "has_rmdir h")
  case True
  with assms(1,3,4) show ?thesis
    by (auto simp: deleteSession_given adapter_rmdir_recursive_def map_of_filter_outside
        same_at_def)
next
  case False
  with removeByHand_other [OF assms(2,3,4)] assms(1) show ?thesis
    by (simp add: deleteSession_given)
qed

lemma promptAndRecoverIfAny_vault:
  assumes "findLatestSessionPath h (vault_of w) = Inr (Some sp)" and "sp \<noteq> []"
  shows "\<exists>w'. promptAndRecoverIfAny h scanTime choice clickTime w = Inr w'
           \<and> (vault_of w' = vault_of w
               \<or> vault_of w' = snd (deleteSession h (recorder w) (vault_of w) (Some sp)))"
  using assms
  by (cases choice)
    (auto simp: promptAndRecoverIfAny_def onDiscard_def onRecover_def Let_def split_beta
      split: sum.splits)

lemma readManifest_fallback:
  assumes "throws h Read (manifestPathOf sp)
           \<or> (case map_of (files v) (manifestPathOf sp) of
                 None \<Rightarrow> True | Some raw \<Rightarrow> JSON_parse h raw = None)"
  shows "readManifest h now v sp
         = \<lparr>mimeType = ''audio/webm'', startedAt = toISOString h now, chunkCount = 0\<rparr>"
  using assms
  by (auto simp: readManifest_def adapter_read_def split: option.splits)


section \<open>The theorems on the small vault\<close>

text \<open>Claim C1 on two fragments appended to a new session.\<close>

theorem fragments_reassemble_in_order_witness:
  "sessionPath demo_recorder = Some demo_session
   \<and> list_all (\<lambda>b. blob_bytes b \<noteq> []) demo_blobs
   \<and> length demo_blobs \<le> 10000
   \<and> started_vault = \<lparr>files = [(demo_session @ ''/manifest.json'', [0])],
                        folders = [''.obsidian/plugins/whisper/tmp'', demo_session]\<rparr>
   \<and> (\<exists>v'. appendAll (demo_host (Some wav_manifest) None False) demo_recorder started_vault 0
               demo_blobs = Inr v'
         \<and> listChunks (demo_host (Some wav_manifest) None False) v' demo_session
             = Inr [demo_session @ ''/chunk-0000.dat'', demo_session @ ''/chunk-0001.dat'']
         \<and> readChunks (demo_host (Some wav_manifest) None False) v'
               [demo_session @ ''/chunk-0000.dat'', demo_session @ ''/chunk-0001.dat'']
             = Inr [[1, 2], [3]]
         \<and> assembleBlobFromSession (demo_host (Some wav_manifest) None False) v' fresh_manager
               demo_session ''audio/wav''
             = (Inr \<lparr>blob_bytes = [1, 2, 3], blob_type = ''audio/wav''\<rparr>, fresh_manager))"
proof -
  let ?h = "demo_host (Some wav_manifest) None False"
  have h1: "sessionPath demo_recorder = Some demo_session"
    by (simp add: demo_recorder_def)
  have h2: "\<forall>b \<in> set demo_blobs. blob_bytes b \<noteq> []"
    by (simp add: demo_blobs_def)
  have h3: "length demo_blobs \<le> 10000"
    by (simp add: demo_blobs_def)
  have h5: "\<forall>i < length demo_blobs. \<not> throws ?h WriteBinary (chunkPathOf demo_session i)
                                     \<and> \<not> throws ?h ReadBinary (chunkPathOf demo_session i)"
    by (simp add: demo_no_throw)
  have h7: "demo_session \<in> set (folders started_vault)"
    by (simp add: started_vault_def)
  have h8: "distinct (map fst (files started_vault))"
    by (simp add: started_vault_def)
  have "\<not> string_includes (demo_session @ ''/manifest.json'') ''/chunk-''"
    by code_simp
  then have h9: "\<forall>p \<in> set (map fst (files started_vault)).
                   child_of demo_session p \<longrightarrow> \<not> string_includes p ''/chunk-''"
    by (simp add: started_vault_def)
  have paths: "map (chunkPathOf demo_session) [0..<length demo_blobs]
               = [demo_session @ ''/chunk-0000.dat'', demo_session @ ''/chunk-0001.dat'']"
    by code_simp
  have bytes: "map blob_bytes demo_blobs = [[1, 2], [3]]" "demo_blobs \<noteq> []"
    by (simp_all add: demo_blobs_def)
  from fragments_reassemble_in_order [OF h1 h2 h3 demo_perm h5 demo_no_throw h7 h8 h9,
      of fresh_manager]
  have "\<exists>v'. appendAll ?h demo_recorder started_vault 0 demo_blobs = Inr v'
         \<and> listChunks ?h v' demo_session
             = Inr [demo_session @ ''/chunk-0000.dat'', demo_session @ ''/chunk-0001.dat'']
         \<and> readChunks ?h v'
               [demo_session @ ''/chunk-0000.dat'', demo_session @ ''/chunk-0001.dat'']
             = Inr [[1, 2], [3]]
         \<and> assembleBlobFromSession ?h v' fresh_manager demo_session ''audio/wav''
             = (Inr \<lparr>blob_bytes = [1, 2, 3], blob_type = ''audio/wav''\<rparr>, fresh_manager)"
    unfolding paths bytes(1) using bytes(2) by simp
  with h1 h2 h3 show ?thesis
    by (simp add: list_all_iff started_vault_def)
qed

text \<open>
  Claim C6 on an empty blob, on a fragment with a manifest that parses, and on the same
  fragment with a manifest that does not.
\<close>

theorem writeIncrementalChunk_durable_witness:
  "blob_bytes empty_blob = []
   \<and> writeIncrementalChunk (demo_host (Some wav_manifest) None False) demo_recorder started_vault
        (Some empty_blob) 5 = Inr started_vault
   \<and> sessionPath demo_recorder = Some demo_session \<and> blob_bytes first_blob \<noteq> []
   \<and> \<not> throws (demo_host (Some wav_manifest) None False) WriteBinary (chunkPathOf demo_session 5)
   \<and> (\<exists>v'. writeIncrementalChunk (demo_host (Some wav_manifest) None False) demo_recorder
               started_vault (Some first_blob) 5 = Inr v'
         \<and> map_of (files v') (chunkPathOf demo_session 5) = Some [1, 2]
         \<and> map_of (files v') (manifestPathOf demo_session) = Some [6])
   \<and> (\<exists>v'. writeIncrementalChunk (demo_host None None False) demo_recorder
               started_vault (Some first_blob) 5 = Inr v'
         \<and> map_of (files v') (chunkPathOf demo_session 5) = Some [1, 2]
         \<and> map_of (files v') (manifestPathOf demo_session) = Some [0])"
proof -
  let ?h = "demo_host (Some wav_manifest) None False" and ?hc = "demo_host None None False"
  have e: "blob_bytes empty_blob = []" by (simp add: empty_blob_def)
  have s: "sessionPath demo_recorder = Some demo_session" by (simp add: demo_recorder_def)
  have b: "blob_bytes first_blob \<noteq> []" "blob_bytes first_blob = [1, 2]"
    by (simp_all add: first_blob_def)
  have m: "map_of (files started_vault) (manifestPathOf demo_session) = Some [0]"
    by (simp add: started_vault_def manifestPathOf_def)
  have p: "JSON_parse ?h [0] = Some wav_manifest" "JSON_parse ?hc [0] = None"
    "JSON_stringify ?h (wav_manifest\<lparr>chunkCount := max (chunkCount wav_manifest) 6\<rparr>) = [6]"
    by (simp_all add: demo_host_def wav_manifest_def)
  from writeIncrementalChunk_durable [of ?h demo_recorder started_vault 5 empty_blob demo_session] e
  have 1: "writeIncrementalChunk ?h demo_recorder started_vault (Some empty_blob) 5 = Inr started_vault"
    by blast
  from writeIncrementalChunk_durable [of ?h demo_recorder started_vault 5 first_blob demo_session]
    s b
  have 2: "\<exists>v'. writeIncrementalChunk ?h demo_recorder started_vault (Some first_blob) 5 = Inr v'
         \<and> map_of (files v') (chunkPathOf demo_session 5) = Some [1, 2]
         \<and> map_of (files v') (manifestPathOf demo_session) = Some [6]"
    by (simp add: demo_no_throw m p, blast)
  from writeIncrementalChunk_durable [of ?hc demo_recorder started_vault 5 first_blob demo_session]
    s b
  have 3: "\<exists>v'. writeIncrementalChunk ?hc demo_recorder started_vault (Some first_blob) 5 = Inr v'
         \<and> map_of (files v') (chunkPathOf demo_session 5) = Some [1, 2]
         \<and> map_of (files v') (manifestPathOf demo_session) = Some [0]"
    by (simp add: demo_no_throw m p, blast)
  from e 1 s b(1) 2 3 show ?thesis
    by (simp add: demo_no_throw)
qed


text \<open>
  Claim C4 as stated says that the session is deleted even if \<open>process\<close> fails. With a
  consumer that throws, \<open>process\<close> is called once, the failure is reported, and the
  vault is as it was: the session folder is still there. And on a session folder with
  nothing to recover, Recover does not call \<open>process\<close> at all; the failure is
  reported and the folder stays.
\<close>

definition empty_session_world :: world where
  "empty_session_world =
     demo_world\<lparr>vault_of := \<lparr>files = [], folders = [''.obsidian/plugins/whisper/tmp'', demo_session]\<rparr>\<rparr>"

theorem recovery_keeps_session_when_processing_fails:
  "\<not> isl (promptAndRecoverIfAny (demo_host (Some wav_manifest) None True) scan_time Recover
            click_time demo_world)
   \<and> processed (projr (promptAndRecoverIfAny (demo_host (Some wav_manifest) None True) scan_time
                        Recover click_time demo_world))
     = [(\<lparr>blob_bytes = [1, 2, 3], blob_type = ''audio/wav''\<rparr>, ''2024-01-02_08-05.wav'')]
   \<and> notices (projr (promptAndRecoverIfAny (demo_host (Some wav_manifest) None True) scan_time
                      Recover click_time demo_world))
     = [RecoveryFailed ProcessError]
   \<and> vault_of (projr (promptAndRecoverIfAny (demo_host (Some wav_manifest) None True) scan_time
                       Recover click_time demo_world))
     = demo_vault
   \<and> demo_session \<in> set (folders demo_vault)
   \<and> \<not> isl (promptAndRecoverIfAny (demo_host (Some wav_manifest) None False) scan_time Recover
              click_time empty_session_world)
   \<and> processed (projr (promptAndRecoverIfAny (demo_host (Some wav_manifest) None False) scan_time
                          Recover click_time empty_session_world))
       = []
   \<and> notices (projr (promptAndRecoverIfAny (demo_host (Some wav_manifest) None False) scan_time
                        Recover click_time empty_session_world))
       = [RecoveryFailed NoRecordingData]
   \<and> demo_session
       \<in> set (folders (vault_of (projr (promptAndRecoverIfAny
                                          (demo_host (Some wav_manifest) None False) scan_time
                                          Recover click_time empty_session_world))))"
  by code_simp

text \<open>Claim C4 (amended) on the small vault, with a consumer that returns.\<close>

theorem recovery_act_step_witness:
  "findLatestSessionPath (demo_host (Some wav_manifest) None False) (vault_of demo_world)
     = Inr (Some demo_session)
   \<and> demo_session \<noteq> []
   \<and> (\<exists>w'. promptAndRecoverIfAny (demo_host (Some wav_manifest) None False) scan_time Discard
               click_time demo_world = Inr w'
         \<and> processed w' = [] \<and> notices w' = [] \<and> session_gone demo_session (vault_of w'))
   \<and> (\<exists>w'. promptAndRecoverIfAny (demo_host (Some wav_manifest) None False) scan_time Recover
               click_time demo_world = Inr w'
         \<and> processed w'
             = [(\<lparr>blob_bytes = [1, 2, 3], blob_type = ''audio/wav''\<rparr>, ''2024-01-02_08-05.wav'')]
         \<and> notices w' = [Recovered] \<and> session_gone demo_session (vault_of w'))"
proof -
  let ?h = "demo_host (Some wav_manifest) None False"
  have f: "findLatestSessionPath ?h (vault_of demo_world) = Inr (Some demo_session)"
    by code_simp
  have ne: "demo_session \<noteq> []"
    by (simp add: demo_session_def)
  have w: "processed demo_world = []" "notices demo_world = []"
    by (simp_all add: demo_world_def)
  have mf: "readManifest ?h scan_time (vault_of demo_world) demo_session = wav_manifest"
    by code_simp
  have mt: "mimeType wav_manifest = ''audio/wav''"
    by (simp add: wav_manifest_def)
  have name: "generateTimestampedName click_time (getExtensionFromMime ''audio/wav'')
              = ''2024-01-02_08-05.wav''"
    by code_simp
  have a: "assembleBlobFromSession ?h (vault_of demo_world) (contexts demo_world) demo_session
             ''audio/wav''
           = (Inr \<lparr>blob_bytes = [1, 2, 3], blob_type = ''audio/wav''\<rparr>, fresh_manager)"
    by code_simp
  have pt: "\<And>blob fileName. \<not> process_throws ?h blob fileName"
    by (simp add: demo_host_def)
  from recovery_act_step [OF f ne, of scan_time click_time]
  show ?thesis
    by (simp add: f ne w mf mt name a pt demo_no_throw demo_has_rmdir Let_def)
qed


end
